theory Spec2Isabelle
  imports Main "HOL-Library.Char_ord" "HOL-Library.List_Lexorder" "HOL-Library.AList"
begin

section \<open>Strings and characters\<close>

text \<open>
  A Python \<open>str\<close> is modelled as a \<open>string\<close>, a list of 8-bit characters: the
  code points 0 to 255 (Latin-1). The character classes below are the ones Python uses
  (\<open>str.isspace\<close>, \<open>str.isdigit\<close>, the \<open>re\<close> module's \<open>\s\<close>, \<open>\d\<close>, \<open>\w\<close> on
  \<open>str\<close> patterns), restricted to that range.
\<close>

definition py_isspace :: "char \<Rightarrow> bool" where
  \<comment> \<open>\<open>str.isspace\<close> and the regex class \<open>\s\<close>\<close>
  "py_isspace c \<longleftrightarrow> c \<in> set [CHR 0x09, CHR 0x0A, CHR 0x0B, CHR 0x0C, CHR 0x0D,
      CHR 0x1C, CHR 0x1D, CHR 0x1E, CHR 0x1F, CHR 0x20, CHR 0x85, CHR 0xA0]"

definition is_digit :: "char \<Rightarrow> bool" where
  \<comment> \<open>the regex class \<open>\d\<close> (decimal digits)\<close>
  "is_digit c \<longleftrightarrow> c \<in> set ''0123456789''"

definition py_isdigit_char :: "char \<Rightarrow> bool" where
  \<comment> \<open>one character of \<open>str.isdigit\<close>: decimal digits and the superscripts 1, 2, 3\<close>
  "py_isdigit_char c \<longleftrightarrow> is_digit c \<or> c \<in> set [CHR 0xB2, CHR 0xB3, CHR 0xB9]"

definition py_isdigit :: "string \<Rightarrow> bool" where
  "py_isdigit s \<longleftrightarrow> s \<noteq> [] \<and> list_all py_isdigit_char s"

definition is_upper_ascii :: "char \<Rightarrow> bool" where
  "is_upper_ascii c \<longleftrightarrow> c \<in> set ''ABCDEFGHIJKLMNOPQRSTUVWXYZ''"

definition is_lower_ascii :: "char \<Rightarrow> bool" where
  "is_lower_ascii c \<longleftrightarrow> c \<in> set ''abcdefghijklmnopqrstuvwxyz''"

definition is_word :: "char \<Rightarrow> bool" where
  \<comment> \<open>the regex class \<open>\w\<close>: \<open>str.isalnum\<close> or the underscore\<close>
  "is_word c \<longleftrightarrow> is_digit c \<or> is_lower_ascii c \<or> is_upper_ascii c \<or> c = CHR ''_'' \<or>
     (let n = (of_char c :: nat) in
        n = 0xAA \<or> n = 0xB2 \<or> n = 0xB3 \<or> n = 0xB5 \<or> n = 0xB9 \<or> n = 0xBA \<or>
        (0xBC \<le> n \<and> n \<le> 0xBE) \<or> (0xC0 \<le> n \<and> n \<le> 0xD6) \<or>
        (0xD8 \<le> n \<and> n \<le> 0xF6) \<or> 0xF8 \<le> n)"

definition ascii_lower :: "char \<Rightarrow> char" where
  "ascii_lower c =
     (case map_of (zip ''ABCDEFGHIJKLMNOPQRSTUVWXYZ'' ''abcdefghijklmnopqrstuvwxyz'') c of
        Some l \<Rightarrow> l | None \<Rightarrow> c)"

definition ascii_upper :: "char \<Rightarrow> char" where
  "ascii_upper c =
     (case map_of (zip ''abcdefghijklmnopqrstuvwxyz'' ''ABCDEFGHIJKLMNOPQRSTUVWXYZ'') c of
        Some u \<Rightarrow> u | None \<Rightarrow> c)"

definition py_lower_char :: "char \<Rightarrow> char" where
  \<comment> \<open>\<open>str.lower\<close> on one character: A-Z and the Latin-1 capitals 0xC0-0xDE (not 0xD7)\<close>
  "py_lower_char c =
     (let n = (of_char c :: nat) in
        if 0xC0 \<le> n \<and> n \<le> 0xDE \<and> n \<noteq> 0xD7 then char_of (n + 32) else ascii_lower c)"

definition py_lower :: "string \<Rightarrow> string" where
  "py_lower s = map py_lower_char s"

definition lstrip :: "string \<Rightarrow> string" where
  "lstrip s = dropWhile py_isspace s"

definition rstrip :: "string \<Rightarrow> string" where
  "rstrip s = rev (dropWhile py_isspace (rev s))"

definition strip :: "string \<Rightarrow> string" where
  \<comment> \<open>\<open>str.strip()\<close>\<close>
  "strip s = rstrip (lstrip s)"

definition rstrip_char :: "char \<Rightarrow> string \<Rightarrow> string" where
  \<comment> \<open>\<open>s.rstrip(c)\<close> for a one-character argument\<close>
  "rstrip_char c s = rev (dropWhile (\<lambda>x. x = c) (rev s))"

fun py_split_ws_aux :: "string \<Rightarrow> string \<Rightarrow> string list" where
  "py_split_ws_aux cur [] = (if cur = [] then [] else [rev cur])"
| "py_split_ws_aux cur (c # cs) =
     (if py_isspace c
      then (if cur = [] then py_split_ws_aux [] cs else rev cur # py_split_ws_aux [] cs)
      else py_split_ws_aux (c # cur) cs)"

definition py_split_ws :: "string \<Rightarrow> string list" where
  \<comment> \<open>\<open>str.split()\<close> without arguments: runs of whitespace separate, no empty items\<close>
  "py_split_ws s = py_split_ws_aux [] s"

definition startswith :: "string \<Rightarrow> string \<Rightarrow> bool" where
  "startswith s p \<longleftrightarrow> take (length p) s = p"

definition join_with :: "string \<Rightarrow> string list \<Rightarrow> string" where
  \<comment> \<open>\<open>sep.join(xs)\<close>\<close>
  "join_with sep xs = (case xs of [] \<Rightarrow> [] | y # ys \<Rightarrow> y @ concat (map (\<lambda>z. sep @ z) ys))"

fun str_nat :: "nat \<Rightarrow> string" where
  \<comment> \<open>\<open>str(n)\<close> for a non-negative integer\<close>
  "str_nat n = (if n < 10 then [''0123456789'' ! n] else str_nat (n div 10) @ [''0123456789'' ! (n mod 10)])"

declare str_nat.simps [simp del]

definition str_int :: "int \<Rightarrow> string" where
  \<comment> \<open>\<open>str(i)\<close>, also what an f-string writes for an integer\<close>
  "str_int i = (if i < 0 then ''-'' @ str_nat (nat (- i)) else str_nat (nat i))"

definition truthy :: "string option \<Rightarrow> bool" where
  \<comment> \<open>Python truth value of a \<open>str | None\<close>\<close>
  "truthy r \<longleftrightarrow> (case r of None \<Rightarrow> False | Some s \<Rightarrow> s \<noteq> [])"

section \<open>Regular expressions of the \<open>re\<close> module\<close>

text \<open>
  The patterns of the sources are kept as syntax trees beside their pattern text. The
  matcher is a backtracking matcher with the priorities of \<open>re\<close>: alternatives left to
  right, repetitions greedy. Every repetition of the sources is over a single-character
  atom, so \<open>Star\<close>, \<open>Plus\<close> and \<open>Rep\<close> take a character class.
\<close>

datatype cls =
    Lit char               \<comment> \<open>a literal character\<close>
  | Dot                    \<comment> \<open>\<open>.\<close>: any character but newline\<close>
  | Space                  \<comment> \<open>\<open>\s\<close>\<close>
  | Digit                  \<comment> \<open>\<open>\d\<close>\<close>
  | WordC                  \<comment> \<open>\<open>\w\<close>\<close>
  | Range char char        \<comment> \<open>\<open>[a-z]\<close>\<close>
  | OneOf "cls list"       \<comment> \<open>a bracket expression with several members\<close>

datatype rx =
    Atom cls
  | Cat "rx list"          \<comment> \<open>concatenation\<close>
  | Alt "rx list"          \<comment> \<open>\<open>a|b|c\<close>\<close>
  | Opt rx                 \<comment> \<open>\<open>r?\<close>\<close>
  | Star cls               \<comment> \<open>\<open>a*\<close>\<close>
  | Plus cls               \<comment> \<open>\<open>a+\<close>\<close>
  | Rep cls nat nat        \<comment> \<open>\<open>a{m,n}\<close>\<close>
  | Grp nat rx             \<comment> \<open>capturing group number n\<close>
  | WordB                  \<comment> \<open>\<open>\b\<close>\<close>
  | Bol                    \<comment> \<open>\<open>^\<close>\<close>
  | Eol                    \<comment> \<open>\<open>$\<close>: at the end, or before a final newline\<close>

definition Str :: "string \<Rightarrow> rx" where
  "Str s = Cat (map (\<lambda>c. Atom (Lit c)) s)"

fun cls_match :: "bool \<Rightarrow> cls \<Rightarrow> char \<Rightarrow> bool" where
  "cls_match ic (Lit x) c = (if ic then ascii_lower c = ascii_lower x else c = x)"
| "cls_match ic Dot c = (c \<noteq> CHR 0x0A)"
| "cls_match ic Space c = py_isspace c"
| "cls_match ic Digit c = is_digit c"
| "cls_match ic WordC c = is_word c"
| "cls_match ic (Range a b) c =
     ((a \<le> c \<and> c \<le> b) \<or>
      (ic \<and> ((a \<le> ascii_lower c \<and> ascii_lower c \<le> b) \<or> (a \<le> ascii_upper c \<and> ascii_upper c \<le> b))))"
| "cls_match ic (OneOf cs) c = list_ex (\<lambda>k. cls_match ic k c) cs"

text \<open>
  The matcher state: the character before the position (none at the start), the rest of
  the text, and the groups captured so far.
\<close>

type_synonym mstate = "char option \<times> string \<times> (nat \<times> string) list"

fun rx_star :: "bool \<Rightarrow> cls \<Rightarrow> (mstate \<Rightarrow> 'a option) \<Rightarrow> char option \<Rightarrow> (nat \<times> string) list \<Rightarrow> string \<Rightarrow> 'a option" where
  "rx_star ic a k p g [] = k (p, [], g)"
| "rx_star ic a k p g (c # cs) =
     (if cls_match ic a c
      then (case rx_star ic a k (Some c) g cs of Some r \<Rightarrow> Some r | None \<Rightarrow> k (p, c # cs, g))
      else k (p, c # cs, g))"

fun rx_rep :: "bool \<Rightarrow> cls \<Rightarrow> nat \<Rightarrow> nat \<Rightarrow> (mstate \<Rightarrow> 'a option) \<Rightarrow> char option \<Rightarrow> (nat \<times> string) list \<Rightarrow> string \<Rightarrow> 'a option" where
  "rx_rep ic a lo hi k p g [] = (if lo = 0 then k (p, [], g) else None)"
| "rx_rep ic a lo hi k p g (c # cs) =
     (if hi > 0 \<and> cls_match ic a c
      then (case rx_rep ic a (lo - 1) (hi - 1) k (Some c) g cs of
              Some r \<Rightarrow> Some r
            | None \<Rightarrow> if lo = 0 then k (p, c # cs, g) else None)
      else if lo = 0 then k (p, c # cs, g) else None)"

fun rx_cat :: "((mstate \<Rightarrow> 'a option) \<Rightarrow> mstate \<Rightarrow> 'a option) list \<Rightarrow> (mstate \<Rightarrow> 'a option) \<Rightarrow> mstate \<Rightarrow> 'a option" where
  \<comment> \<open>the matchers of a concatenation, each continuing with the next\<close>
  "rx_cat [] k st = k st"
| "rx_cat (m # ms) k st = m (rx_cat ms k) st"

fun rx_alt :: "((mstate \<Rightarrow> 'a option) \<Rightarrow> mstate \<Rightarrow> 'a option) list \<Rightarrow> (mstate \<Rightarrow> 'a option) \<Rightarrow> mstate \<Rightarrow> 'a option" where
  \<comment> \<open>the matchers of an alternation, tried from the left\<close>
  "rx_alt [] k st = None"
| "rx_alt (m # ms) k st = (case m k st of Some x \<Rightarrow> Some x | None \<Rightarrow> rx_alt ms k st)"

primrec rx_m :: "bool \<Rightarrow> rx \<Rightarrow> (mstate \<Rightarrow> 'a option) \<Rightarrow> mstate \<Rightarrow> 'a option" where
  "rx_m ic (Atom a) k st =
     (case st of (p, [], g) \<Rightarrow> None
      | (p, c # cs, g) \<Rightarrow> if cls_match ic a c then k (Some c, cs, g) else None)"
| "rx_m ic (Cat rs) k st = rx_cat (map (rx_m ic) rs) k st"
| "rx_m ic (Alt rs) k st = rx_alt (map (rx_m ic) rs) k st"
| "rx_m ic (Opt r) k st = (case rx_m ic r k st of Some x \<Rightarrow> Some x | None \<Rightarrow> k st)"
| "rx_m ic (Star a) k st = (case st of (p, s, g) \<Rightarrow> rx_star ic a k p g s)"
| "rx_m ic (Plus a) k st =
     (case st of (p, [], g) \<Rightarrow> None
      | (p, c # cs, g) \<Rightarrow> if cls_match ic a c then rx_star ic a k (Some c) g cs else None)"
| "rx_m ic (Rep a lo hi) k st = (case st of (p, s, g) \<Rightarrow> rx_rep ic a lo hi k p g s)"
| "rx_m ic (Grp n r) k st =
     (case st of (p, s, g) \<Rightarrow>
        rx_m ic r (\<lambda>(p', s', g'). k (p', s', (n, take (length s - length s') s) # g')) st)"
| "rx_m ic WordB k st =
     (case st of (p, s, g) \<Rightarrow>
        if (case p of None \<Rightarrow> False | Some c \<Rightarrow> is_word c) \<noteq> (case s of [] \<Rightarrow> False | c # _ \<Rightarrow> is_word c)
        then k st else None)"
| "rx_m ic Bol k st = (case st of (p, s, g) \<Rightarrow> if p = None then k st else None)"
| "rx_m ic Eol k st = (case st of (p, s, g) \<Rightarrow> if s = [] \<or> s = [CHR 0x0A] then k st else None)"

text \<open>\<open>pattern.match(text)\<close>: a match starting at the first character; the groups it captured.\<close>

definition re_match :: "bool \<Rightarrow> rx \<Rightarrow> string \<Rightarrow> (nat \<times> string) list option" where
  "re_match ic r text = rx_m ic r (\<lambda>(p, s, g). Some g) (None, text, [])"

text \<open>\<open>pattern.search(text)\<close>: the leftmost match, trying each start position in turn.\<close>

fun re_search_from :: "bool \<Rightarrow> rx \<Rightarrow> char option \<Rightarrow> string \<Rightarrow> (nat \<times> string) list option" where
  "re_search_from ic r p [] = rx_m ic r (\<lambda>(p, s, g). Some g) (p, [], [])"
| "re_search_from ic r p (c # cs) =
     (case rx_m ic r (\<lambda>(p, s, g). Some g) (p, c # cs, []) of
        Some g \<Rightarrow> Some g
      | None \<Rightarrow> re_search_from ic r (Some c) cs)"

definition re_search :: "bool \<Rightarrow> rx \<Rightarrow> string \<Rightarrow> (nat \<times> string) list option" where
  "re_search ic r text = re_search_from ic r None text"

definition group :: "(nat \<times> string) list \<Rightarrow> nat \<Rightarrow> string option" where
  \<comment> \<open>\<open>m.group(n)\<close>: none when the group took no part in the match\<close>
  "group g n = map_of g n"

text \<open>
  \<open>pattern.pattern\<close>, the text a pattern was compiled from, is printed back from the
  syntax tree: the characters \<^verbatim>\<open>.^$*+?{}[]\|()\<close> are written with a backslash.
\<close>

definition cls_special :: "char \<Rightarrow> bool" where
  "cls_special c \<longleftrightarrow> c \<in> set [CHR ''.'', CHR ''^'', CHR ''$'', CHR ''*'', CHR ''+'', CHR ''?'',
      CHR ''{'', CHR ''}'', CHR ''['', CHR '']'', CHR 0x5C, CHR ''|'', CHR ''('', CHR '')'']"

fun cls_src :: "cls \<Rightarrow> string" where
  "cls_src (Lit c) = (if cls_special c then [CHR 0x5C, c] else [c])"
| "cls_src Dot = ''.''"
| "cls_src Space = [CHR 0x5C, CHR ''s'']"
| "cls_src Digit = [CHR 0x5C, CHR ''d'']"
| "cls_src WordC = [CHR 0x5C, CHR ''w'']"
| "cls_src (Range a b) = ''['' @ [a] @ ''-'' @ [b] @ '']''"
| "cls_src (OneOf cs) = ''['' @ concat (map cls_src cs) @ '']''"

fun rx_src :: "rx \<Rightarrow> string" where
  "rx_src (Atom a) = cls_src a"
| "rx_src (Cat rs) = concat (map rx_src rs)"
| "rx_src (Alt rs) = join_with ''|'' (map rx_src rs)"
| "rx_src (Opt r) = rx_src r @ ''?''"
| "rx_src (Star a) = cls_src a @ ''*''"
| "rx_src (Plus a) = cls_src a @ ''+''"
| "rx_src (Rep a lo hi) = cls_src a @ ''{'' @ str_nat lo @ '','' @ str_nat hi @ ''}''"
| "rx_src (Grp n r) = ''('' @ rx_src r @ '')''"
| "rx_src WordB = [CHR 0x5C, CHR ''b'']"
| "rx_src Bol = ''^''"
| "rx_src Eol = ''$''"

section \<open>The shell safety filter (\<open>grip/tools/shell.py\<close>)\<close>

definition BLOCKED_COMMANDS :: "string list" where
  "BLOCKED_COMMANDS =
     [''mkfs'', ''mkfs.ext2'', ''mkfs.ext3'', ''mkfs.ext4'',
      ''mkfs.xfs'', ''mkfs.btrfs'', ''mkfs.vfat'', ''mkfs.ntfs'',
      ''shutdown'', ''reboot'', ''halt'', ''poweroff'']"

definition BLOCKED_SYSTEMCTL_ACTIONS :: "string list" where
  "BLOCKED_SYSTEMCTL_ACTIONS = [''poweroff'', ''reboot'', ''halt'']"

definition RM_LONG_FLAG_MAP :: "(string \<times> char) list" where
  "RM_LONG_FLAG_MAP =
     [(''--recursive'', CHR ''r''),
      (''--force'', CHR ''f''),
      (''--interactive'', CHR ''i''),
      (''--dir'', CHR ''d''),
      (''--verbose'', CHR ''v''),
      (''--no-preserve-root'', CHR ''!'')]"

definition DANGEROUS_RM_TARGETS :: "string list" where
  "DANGEROUS_RM_TARGETS =
     [''/'', ''/*'',
      ''~'', ''$HOME'',
      ''/home'', ''/etc'', ''/var'', ''/usr'', ''/bin'', ''/sbin'',
      ''/lib'', ''/boot'', ''/root'', ''/opt'', ''/srv'']"

definition INTERPRETER_COMMANDS :: "string list" where
  "INTERPRETER_COMMANDS =
     [''python'', ''python3'', ''python3.10'', ''python3.11'', ''python3.12'', ''python3.13'',
      ''bash'', ''sh'', ''zsh'', ''dash'', ''ksh'', ''fish'',
      ''perl'', ''ruby'', ''node'', ''lua'']"

definition MAX_CHECK_DEPTH :: nat where
  "MAX_CHECK_DEPTH = 3"

text \<open>
  The deny patterns, each as its syntax tree under its pattern text. All are compiled
  with \<open>re.IGNORECASE\<close>.
\<close>

definition REGEX_DENY :: "rx list" where
  \<open>REGEX_DENY =
   [\<comment> \<open>\<^verbatim>\<open>:\(\)\s*\{\s*:\|:\s*&\s*\}\s*;\<close>\<close>
       Cat [Str '':()'', Star Space, Str ''{'', Star Space, Str '':|:'', Star Space,
            Str ''&'', Star Space, Str ''}'', Star Space, Str '';''],
    \<comment> \<open>\<^verbatim>\<open>\bdd\s+if=\<close>\<close>
       Cat [WordB, Str ''dd'', Plus Space, Str ''if=''],
    \<comment> \<open>\<^verbatim>\<open>>\s*/dev/sd[a-z]\<close>\<close>
       Cat [Str ''>'', Star Space, Str ''/dev/sd'', Atom (Range CHR ''a'' CHR ''z'')],
    \<comment> \<open>\<^verbatim>\<open>>\s*/dev/nvme\<close>\<close>
       Cat [Str ''>'', Star Space, Str ''/dev/nvme''],
    \<comment> \<open>\<^verbatim>\<open>>\s*/dev/disk\<close>\<close>
       Cat [Str ''>'', Star Space, Str ''/dev/disk''],
    \<comment> \<open>\<^verbatim>\<open>\bchmod\s+.*\s+/\s*$\<close>\<close>
       Cat [WordB, Str ''chmod'', Plus Space, Star Dot, Plus Space, Str ''/'', Star Space, Eol],
    \<comment> \<open>\<^verbatim>\<open>\bchown\s+.*\s+/\s*$\<close>\<close>
       Cat [WordB, Str ''chown'', Plus Space, Star Dot, Plus Space, Str ''/'', Star Space, Eol],
    \<comment> \<open>\<^verbatim>\<open>\bchattr\s+\+i\s+/\<close>\<close>
       Cat [WordB, Str ''chattr'', Plus Space, Str ''+i'', Plus Space, Str ''/''],
    \<comment> \<open>\<^verbatim>\<open>\bcurl\b.*\|\s*(ba)?sh\b\<close>\<close>
       Cat [WordB, Str ''curl'', WordB, Star Dot, Str ''|'', Star Space,
            Opt (Grp 1 (Str ''ba'')), Str ''sh'', WordB],
    \<comment> \<open>\<^verbatim>\<open>\bwget\b.*\|\s*(ba)?sh\b\<close>\<close>
       Cat [WordB, Str ''wget'', WordB, Star Dot, Str ''|'', Star Space,
            Opt (Grp 1 (Str ''ba'')), Str ''sh'', WordB],
    \<comment> \<open>\<^verbatim>\<open>\bcurl\b.*\|\s*python\<close>\<close>
       Cat [WordB, Str ''curl'', WordB, Star Dot, Str ''|'', Star Space, Str ''python''],
    \<comment> \<open>\<^verbatim>\<open>\bwget\b.*\|\s*python\<close>\<close>
       Cat [WordB, Str ''wget'', WordB, Star Dot, Str ''|'', Star Space, Str ''python''],
    \<comment> \<open>\<^verbatim>\<open>\bcurl\b.*\|\s*perl\<close>\<close>
       Cat [WordB, Str ''curl'', WordB, Star Dot, Str ''|'', Star Space, Str ''perl''],
    \<comment> \<open>\<^verbatim>\<open>\bcat\s+.*\.ssh/id_\<close>\<close>
       Cat [WordB, Str ''cat'', Plus Space, Star Dot, Str ''.ssh/id_''],
    \<comment> \<open>\<^verbatim>\<open>\bcat\s+.*\.env\b\<close>\<close>
       Cat [WordB, Str ''cat'', Plus Space, Star Dot, Str ''.env'', WordB],
    \<comment> \<open>\<^verbatim>\<open>\bcat\s+.*/\.aws/credentials\<close>\<close>
       Cat [WordB, Str ''cat'', Plus Space, Star Dot, Str ''/.aws/credentials''],
    \<comment> \<open>\<^verbatim>\<open>\bcat\s+.*/\.netrc\<close>\<close>
       Cat [WordB, Str ''cat'', Plus Space, Star Dot, Str ''/.netrc''],
    \<comment> \<open>\<^verbatim>\<open>\bcat\s+.*\.(bash_|zsh_)?history\<close>\<close>
       Cat [WordB, Str ''cat'', Plus Space, Star Dot, Str ''.'',
            Opt (Grp 1 (Alt [Str ''bash_'', Str ''zsh_''])), Str ''history''],
    \<comment> \<open>\<^verbatim>\<open>\bcurl\b.*-[a-z]*d\s*@.*\.(env|pem|key)\b\<close>\<close>
       Cat [WordB, Str ''curl'', WordB, Star Dot, Str ''-'', Star (Range CHR ''a'' CHR ''z''),
            Str ''d'', Star Space, Str ''@'', Star Dot, Str ''.'',
            Grp 1 (Alt [Str ''env'', Str ''pem'', Str ''key'']), WordB],
    \<comment> \<open>\<^verbatim>\<open>\bscp\s+.*\.(env|pem|key)\s\<close>\<close>
       Cat [WordB, Str ''scp'', Plus Space, Star Dot, Str ''.'',
            Grp 1 (Alt [Str ''env'', Str ''pem'', Str ''key'']), Atom Space]]\<close>

definition INTERPRETER_CODE_PATTERNS :: "rx list" where
  \<open>INTERPRETER_CODE_PATTERNS =
   [\<comment> \<open>\<^verbatim>\<open>rm\s.*-.*r.*-.*f.*\s+/\<close>\<close>
       Cat [Str ''rm'', Atom Space, Star Dot, Str ''-'', Star Dot, Str ''r'', Star Dot,
            Str ''-'', Star Dot, Str ''f'', Star Dot, Plus Space, Str ''/''],
    \<comment> \<open>\<^verbatim>\<open>rm\s+-rf\s\<close>\<close>
       Cat [Str ''rm'', Plus Space, Str ''-rf'', Atom Space],
    \<comment> \<open>\<^verbatim>\<open>rm\s+--recursive\<close>\<close>
       Cat [Str ''rm'', Plus Space, Str ''--recursive''],
    \<comment> \<open>\<^verbatim>\<open>\bshutdown\b\<close>\<close>
       Cat [WordB, Str ''shutdown'', WordB],
    \<comment> \<open>\<^verbatim>\<open>\breboot\b\<close>\<close>
       Cat [WordB, Str ''reboot'', WordB],
    \<comment> \<open>\<^verbatim>\<open>\bhalt\b\<close>\<close>
       Cat [WordB, Str ''halt'', WordB],
    \<comment> \<open>\<^verbatim>\<open>\bmkfs\b\<close>\<close>
       Cat [WordB, Str ''mkfs'', WordB],
    \<comment> \<open>\<^verbatim>\<open>\.ssh/id_\<close>\<close>
       Str ''.ssh/id_'',
    \<comment> \<open>\<^verbatim>\<open>\.env\b\<close>\<close>
       Cat [Str ''.env'', WordB],
    \<comment> \<open>\<^verbatim>\<open>/\.aws/credentials\<close>\<close>
       Str ''/.aws/credentials'',
    \<comment> \<open>\<^verbatim>\<open>\.(bash_|zsh_)?history\<close>\<close>
       Cat [Str ''.'', Opt (Grp 1 (Alt [Str ''bash_'', Str ''zsh_''])), Str ''history'']]\<close>

text \<open>The first pattern of a table that is found in the text (the \<open>for pattern in ...\<close> loops).\<close>

fun first_pattern :: "rx list \<Rightarrow> string \<Rightarrow> rx option" where
  "first_pattern [] text = None"
| "first_pattern (r # ps) text =
     (if re_search True r text \<noteq> None then Some r else first_pattern ps text)"

subsection \<open>Splitting a command line into sub-commands\<close>

definition emit_part :: "string \<Rightarrow> string list" where
  \<comment> \<open>\<open>part = "".join(current).strip(); if part: parts.append(part)\<close>; \<open>current\<close> is kept
      reversed\<close>
  "emit_part cur = (let part = strip (rev cur) in if part \<noteq> [] then [part] else [])"

fun split_loop :: "bool \<Rightarrow> bool \<Rightarrow> string \<Rightarrow> string \<Rightarrow> string list" where
  "split_loop in_single in_double cur [] = emit_part cur"
| "split_loop in_single in_double cur (ch # rest) =
     (if ch = CHR 0x5C \<and> rest \<noteq> [] \<and> \<not> in_single then
        split_loop in_single in_double (hd rest # ch # cur) (tl rest)
      else if ch = CHR 0x27 \<and> \<not> in_double then
        split_loop (\<not> in_single) in_double (ch # cur) rest
      else if ch = CHR 0x22 \<and> \<not> in_single then
        split_loop in_single (\<not> in_double) (ch # cur) rest
      else if \<not> in_single \<and> \<not> in_double \<and> take 2 (ch # rest) = ''&&'' then
        emit_part cur @ split_loop in_single in_double [] (tl rest)
      else if \<not> in_single \<and> \<not> in_double \<and> take 2 (ch # rest) = ''||'' then
        emit_part cur @ split_loop in_single in_double [] (tl rest)
      else if \<not> in_single \<and> \<not> in_double \<and> ch = CHR '';'' then
        emit_part cur @ split_loop in_single in_double [] rest
      else split_loop in_single in_double (ch # cur) rest)"

definition split_shell_commands :: "string \<Rightarrow> string list" where
  "split_shell_commands command = split_loop False False [] command"

subsection \<open>Tokenising: \<open>shlex.split\<close> and the fall-back\<close>

text \<open>
  \<open>shlex.split(s)\<close> runs the standard library's lexer in POSIX mode with
  \<open>whitespace_split\<close> set and no comment characters. Its states are: between tokens,
  inside a word, inside a quotation (with the quote character), and after an escape
  character (with the state to return to). It raises \<open>ValueError\<close> at the end of the input
  inside a quotation or after an escape.
\<close>

datatype lexstate = LSpace | LWord | LQuote char | LEscape lexstate

definition shlex_whitespace :: "char \<Rightarrow> bool" where
  "shlex_whitespace c \<longleftrightarrow> c \<in> set [CHR 0x20, CHR 0x09, CHR 0x0D, CHR 0x0A]"

definition emit_token :: "string \<Rightarrow> (string + string list) \<Rightarrow> string + string list" where
  "emit_token tok r = (case r of Inl e \<Rightarrow> Inl e | Inr ts \<Rightarrow> Inr (rev tok # ts))"

fun shlex_run :: "lexstate \<Rightarrow> string \<Rightarrow> bool \<Rightarrow> string \<Rightarrow> string + string list" where
  "shlex_run LSpace tok quoted [] = Inr []"
| "shlex_run LWord tok quoted [] = (if tok \<noteq> [] \<or> quoted then Inr [rev tok] else Inr [])"
| "shlex_run (LQuote q) tok quoted [] = Inl ''No closing quotation''"
| "shlex_run (LEscape s) tok quoted [] = Inl ''No escaped character''"
| "shlex_run LSpace tok quoted (c # cs) =
     (if shlex_whitespace c then shlex_run LSpace tok quoted cs
      else if c = CHR 0x5C then shlex_run (LEscape LWord) tok quoted cs
      else if c = CHR 0x27 \<or> c = CHR 0x22 then shlex_run (LQuote c) tok quoted cs
      else shlex_run LWord [c] quoted cs)"
| "shlex_run (LQuote q) tok quoted (c # cs) =
     (if c = q then shlex_run LWord tok True cs
      else if c = CHR 0x5C \<and> q = CHR 0x22 then shlex_run (LEscape (LQuote q)) tok True cs
      else shlex_run (LQuote q) (c # tok) True cs)"
| "shlex_run (LEscape s) tok quoted (c # cs) =
     (case s of
        LQuote q \<Rightarrow>
          if c \<noteq> CHR 0x5C \<and> c \<noteq> q then shlex_run s (c # CHR 0x5C # tok) quoted cs
          else shlex_run s (c # tok) quoted cs
      | _ \<Rightarrow> shlex_run s (c # tok) quoted cs)"
| "shlex_run LWord tok quoted (c # cs) =
     (if shlex_whitespace c then
        (if tok \<noteq> [] \<or> quoted then emit_token tok (shlex_run LSpace [] False cs)
         else shlex_run LSpace [] False cs)
      else if c = CHR 0x27 \<or> c = CHR 0x22 then shlex_run (LQuote c) tok quoted cs
      else if c = CHR 0x5C then shlex_run (LEscape LWord) tok quoted cs
      else shlex_run LWord (c # tok) quoted cs)"

definition shlex_split :: "string \<Rightarrow> string + string list" where
  "shlex_split s = shlex_run LSpace [] False s"

definition tokenize :: "string \<Rightarrow> string list" where
  "tokenize command =
     (case shlex_split command of Inr ts \<Rightarrow> ts | Inl e \<Rightarrow> py_split_ws command)"

subsection \<open>The checks on one tokenised sub-command\<close>

fun sudo_skip :: "string list \<Rightarrow> string list" where
  \<comment> \<open>the \<open>while\<close> loop of \<open>_strip_sudo\<close>: drop each \<open>-flag\<close> and the token after it\<close>
  "sudo_skip [] = []"
| "sudo_skip (t # ts) = (if startswith t ''-'' then sudo_skip (drop 1 ts) else t # ts)"

definition strip_sudo :: "string list \<Rightarrow> string list" where
  "strip_sudo tokens =
     (if tokens = [] \<or> hd tokens \<noteq> ''sudo'' then tokens
      else (let r = sudo_skip (tl tokens) in if r \<noteq> [] then r else tokens))"

definition base_of :: "string \<Rightarrow> string" where
  \<comment> \<open>\<open>tok.rsplit("/", maxsplit=1)[-1]\<close>: what follows the last slash\<close>
  "base_of tok = rev (takeWhile (\<lambda>c. c \<noteq> CHR ''/'') (rev tok))"

fun rm_flags_loop :: "string list \<Rightarrow> char set" where
  "rm_flags_loop [] = {}"
| "rm_flags_loop (token # ts) =
     (if token = ''--'' then {}
      else if startswith token ''--'' then
        (case map_of RM_LONG_FLAG_MAP token of
           Some mapped \<Rightarrow> insert mapped (rm_flags_loop ts)
         | None \<Rightarrow> rm_flags_loop ts)
      else if startswith token ''-'' \<and> length token > 1 \<and> \<not> py_isdigit (tl token) then
        set (tl token) \<union> rm_flags_loop ts
      else rm_flags_loop ts)"

definition extract_rm_flags :: "string list \<Rightarrow> char set" where
  "extract_rm_flags tokens = rm_flags_loop (tl tokens)"

fun rm_targets_loop :: "bool \<Rightarrow> string list \<Rightarrow> string list" where
  "rm_targets_loop past_flags [] = []"
| "rm_targets_loop past_flags (token # ts) =
     (if token = ''--'' then rm_targets_loop True ts
      else if past_flags \<or> \<not> startswith token ''-'' then token # rm_targets_loop past_flags ts
      else rm_targets_loop past_flags ts)"

definition extract_rm_targets :: "string list \<Rightarrow> string list" where
  "extract_rm_targets tokens = rm_targets_loop False (tl tokens)"

definition normalize_target :: "string \<Rightarrow> string" where
  \<comment> \<open>\<open>target.rstrip("/") or "/"\<close>\<close>
  "normalize_target t = (let n = rstrip_char CHR ''/'' t in if n = [] then ''/'' else n)"

fun rm_target_loop :: "bool \<Rightarrow> bool \<Rightarrow> string list \<Rightarrow> string option" where
  "rm_target_loop has_recursive has_force [] = None"
| "rm_target_loop has_recursive has_force (t # ts) =
     (let normalized = normalize_target t in
      if has_recursive \<and> normalized = ''/'' then Some ''rm -r on root filesystem''
      else if has_recursive \<and> has_force \<and>
              list_ex (\<lambda>d. normalized = d \<or> normalized = rstrip_char CHR ''/'' d) DANGEROUS_RM_TARGETS
        then Some (''rm -rf on critical path: '' @ t)
      else rm_target_loop has_recursive has_force ts)"

definition check_rm :: "string list \<Rightarrow> string option" where
  "check_rm tokens =
     (let flags = extract_rm_flags tokens; targets = extract_rm_targets tokens in
      if CHR ''!'' \<in> flags \<and> CHR ''r'' \<in> flags
      then Some ''rm with --no-preserve-root and recursive flag''
      else rm_target_loop (CHR ''r'' \<in> flags) (CHR ''f'' \<in> flags) targets)"

fun find_code_arg :: "string list \<Rightarrow> string option" where
  \<comment> \<open>the \<open>for i, token in enumerate(tokens)\<close> loop of \<open>_check_interpreter\<close>\<close>
  "find_code_arg [] = None"
| "find_code_arg (token # ts) =
     (if token = ''-c'' \<and> ts \<noteq> [] then Some (hd ts)
      else if startswith token ''-c'' \<and> length token > 2 then Some (drop 2 token)
      else find_code_arg ts)"

definition code_arg_of :: "string list \<Rightarrow> string \<Rightarrow> string option" where
  "code_arg_of tokens base_cmd =
     (let code_arg = find_code_arg tokens in
      if base_cmd = ''eval'' \<and> length tokens > 1 \<and> code_arg = None
      then Some (join_with '' '' (tl tokens)) else code_arg)"

text \<open>
  \<open>_check_interpreter\<close> calls \<open>_is_dangerous\<close> on the code argument one level deeper; the
  model takes that call as the parameter \<open>deeper\<close>.
\<close>

definition check_interpreter :: "(string \<Rightarrow> string option) \<Rightarrow> string list \<Rightarrow> string \<Rightarrow> string option" where
  "check_interpreter deeper tokens base_cmd =
     (case code_arg_of tokens base_cmd of
        None \<Rightarrow> None
      | Some code_arg \<Rightarrow>
          (let danger = deeper code_arg in
           if truthy danger
           then Some (''Interpreter escape via '' @ base_cmd @ '' -c: '' @ the danger)
           else (case first_pattern INTERPRETER_CODE_PATTERNS code_arg of
                   Some pattern \<Rightarrow>
                     Some (''Interpreter escape via '' @ base_cmd @ '' -c: code contains '' @
                           [CHR 0x27] @ rx_src pattern @ [CHR 0x27])
                 | None \<Rightarrow>
                     (case first_pattern REGEX_DENY code_arg of
                        Some pattern \<Rightarrow>
                          Some (''Interpreter escape via '' @ base_cmd @ '' -c: '' @ rx_src pattern)
                      | None \<Rightarrow> None))))"

text \<open>The body of the \<open>for subcmd in ...\<close> loop: layers 1 to 3 on one sub-command.\<close>

definition check_subcommand :: "(string \<Rightarrow> string option) \<Rightarrow> string \<Rightarrow> string option" where
  "check_subcommand deeper subcmd =
     (let tokens = tokenize subcmd in
      if tokens = [] then None
      else
        (let tokens = strip_sudo tokens in
         if tokens = [] then None
         else
           (let base_cmd = base_of (hd tokens) in
            if base_cmd \<in> set BLOCKED_COMMANDS then Some (''Blocked command: '' @ base_cmd)
            else if base_cmd = ''systemctl'' \<and> length tokens > 1 \<and> tokens ! 1 \<in> set BLOCKED_SYSTEMCTL_ACTIONS
              then Some (''systemctl '' @ tokens ! 1 @ '' is blocked'')
            else if base_cmd = ''init'' \<and> length tokens > 1 \<and> tokens ! 1 \<in> set [''0'', ''6'']
              then Some (''init '' @ tokens ! 1 @ '' (system halt/reboot)'')
            else
              (let result = (if base_cmd = ''rm'' then check_rm tokens else None) in
               if truthy result then result
               else
                 (let result = (if base_cmd \<in> set INTERPRETER_COMMANDS \<or> base_cmd = ''eval''
                                then check_interpreter deeper tokens base_cmd else None) in
                  if truthy result then result else None)))))"

fun first_danger :: "(string \<Rightarrow> string option) \<Rightarrow> string list \<Rightarrow> string option" where
  \<comment> \<open>the loop over the sub-commands returns at the first one that is rejected\<close>
  "first_danger chk [] = None"
| "first_danger chk (s # ss) = (case chk s of Some r \<Rightarrow> Some r | None \<Rightarrow> first_danger chk ss)"

definition regex_fallback :: "string \<Rightarrow> string option" where
  \<comment> \<open>layer 4: the deny patterns on the full command string\<close>
  "regex_fallback command =
     (case first_pattern REGEX_DENY command of
        Some pattern \<Rightarrow>
          Some (''Blocked: matches pattern '' @ [CHR 0x27] @ rx_src pattern @ [CHR 0x27])
      | None \<Rightarrow> None)"

function is_dangerous :: "nat \<Rightarrow> string \<Rightarrow> string option" where
  "is_dangerous depth command =
     (if depth \<ge> MAX_CHECK_DEPTH then None
      else
        (case first_danger (check_subcommand (\<lambda>code. is_dangerous (depth + 1) code))
                (split_shell_commands command) of
           Some r \<Rightarrow> Some r
         | None \<Rightarrow> regex_fallback command))"
  by pat_completeness auto
termination
  by (relation "measure (\<lambda>(depth, command). MAX_CHECK_DEPTH - depth)") auto

declare is_dangerous.simps [simp del]

section \<open>The \<open>rm\<close> check as the specification words it\<close>

text \<open>
  These definitions follow the specification's words, to be compared with
  \<open>extract_rm_flags\<close>, \<open>extract_rm_targets\<close> and \<open>check_rm\<close> above. Flags are read from
  the arguments before the first \<open>--\<close>: a long flag of the table gives its letter, a
  bundle of short flags gives each of its characters, a numeric-looking argument gives
  nothing. Targets are the arguments that do not start with \<open>-\<close>, and every argument
  after the first \<open>--\<close>, with trailing slashes stripped.
\<close>

definition spec_flags_of_token :: "string \<Rightarrow> char set" where
  "spec_flags_of_token t =
     (if startswith t ''--'' then (case map_of RM_LONG_FLAG_MAP t of Some f \<Rightarrow> {f} | None \<Rightarrow> {})
      else if startswith t ''-'' \<and> length t > 1 \<and> \<not> py_isdigit (tl t) then set (tl t)
      else {})"

definition spec_rm_flags :: "string list \<Rightarrow> char set" where
  "spec_rm_flags tokens = (\<Union>t \<in> set (takeWhile (\<lambda>t. t \<noteq> ''--'') (tl tokens)). spec_flags_of_token t)"

definition spec_rm_targets :: "string list \<Rightarrow> string list" where
  "spec_rm_targets tokens =
     map normalize_target
       (filter (\<lambda>t. \<not> startswith t ''-'') (takeWhile (\<lambda>t. t \<noteq> ''--'') (tl tokens)) @
        filter (\<lambda>t. t \<noteq> ''--'') (dropWhile (\<lambda>t. t \<noteq> ''--'') (tl tokens)))"

definition spec_rm_reject :: "string list \<Rightarrow> bool" where
  "spec_rm_reject tokens \<longleftrightarrow>
     (let flags = spec_rm_flags tokens; targets = spec_rm_targets tokens in
        (CHR ''!'' \<in> flags \<and> CHR ''r'' \<in> flags) \<or>
        (CHR ''r'' \<in> flags \<and> ''/'' \<in> set targets) \<or>
        (CHR ''r'' \<in> flags \<and> CHR ''f'' \<in> flags \<and> list_ex (\<lambda>t. t \<in> set DANGEROUS_RM_TARGETS) targets))"

section \<open>Auxiliary definitions for reasoning about the splitter\<close>

text \<open>
  None of these is part of the program. \<open>branch_of\<close> names the branch the loop of
  \<open>_split_shell_commands\<close> takes at a character; \<open>no_sep\<close> says that the loop, started in
  a quoting state, finds no separator in a text; \<open>segs\<close> lists the raw texts between the
  separators.
\<close>

fun no_sep :: "bool \<Rightarrow> bool \<Rightarrow> string \<Rightarrow> bool" where
  "no_sep in_single in_double [] = True"
| "no_sep in_single in_double (ch # rest) =
     (if ch = CHR 0x5C \<and> rest \<noteq> [] \<and> \<not> in_single then no_sep in_single in_double (tl rest)
      else if ch = CHR 0x27 \<and> \<not> in_double then no_sep (\<not> in_single) in_double rest
      else if ch = CHR 0x22 \<and> \<not> in_single then no_sep in_single (\<not> in_double) rest
      else if \<not> in_single \<and> \<not> in_double \<and> take 2 (ch # rest) = ''&&'' then False
      else if \<not> in_single \<and> \<not> in_double \<and> take 2 (ch # rest) = ''||'' then False
      else if \<not> in_single \<and> \<not> in_double \<and> ch = CHR '';'' then False
      else no_sep in_single in_double rest)"

declare no_sep.simps(2) [simp del] split_loop.simps(2) [simp del]

datatype branch = BEsc | BSingle | BDouble | BAnd | BOr | BSemi | BOther

definition branch_of :: "bool \<Rightarrow> bool \<Rightarrow> char \<Rightarrow> string \<Rightarrow> branch" where
  "branch_of s d ch rest =
     (if ch = CHR 0x5C \<and> rest \<noteq> [] \<and> \<not> s then BEsc
      else if ch = CHR 0x27 \<and> \<not> d then BSingle
      else if ch = CHR 0x22 \<and> \<not> s then BDouble
      else if \<not> s \<and> \<not> d \<and> take 2 (ch # rest) = ''&&'' then BAnd
      else if \<not> s \<and> \<not> d \<and> take 2 (ch # rest) = ''||'' then BOr
      else if \<not> s \<and> \<not> d \<and> ch = CHR '';'' then BSemi
      else BOther)"

fun push :: "string \<Rightarrow> string list \<Rightarrow> string list" where
  "push u [] = []"
| "push u (x # xs) = (u @ x) # xs"

function segs :: "bool \<Rightarrow> bool \<Rightarrow> string \<Rightarrow> string list" where
  "segs s d [] = [[]]"
| "segs s d (ch # rest) =
     (case branch_of s d ch rest of
        BEsc \<Rightarrow> push [ch, hd rest] (segs s d (tl rest))
      | BSingle \<Rightarrow> push [ch] (segs (\<not> s) d rest)
      | BDouble \<Rightarrow> push [ch] (segs s (\<not> d) rest)
      | BAnd \<Rightarrow> [] # segs s d (tl rest)
      | BOr \<Rightarrow> [] # segs s d (tl rest)
      | BSemi \<Rightarrow> [] # segs s d rest
      | BOther \<Rightarrow> push [ch] (segs s d rest))"
  by pat_completeness auto

termination
  by (relation "measure (\<lambda>(s, d, w). length w)") auto

declare segs.simps(2) [simp del]

definition emit_raw :: "string \<Rightarrow> string list" where
  "emit_raw u = emit_part (rev u)"

definition structural_layers :: "string \<Rightarrow> string option" where
  \<comment> \<open>layers 1 to 3 on one sub-command, as the top-level call of the filter runs them\<close>
  "structural_layers subcmd = check_subcommand (\<lambda>code. is_dangerous (0 + 1) code) subcmd"

section \<open>All the ways a pattern matches\<close>

text \<open>
  For the proofs about matches and groups: the states a pattern can end in, in the order
  the backtracking matcher tries them. The matcher returns the first one its continuation
  accepts.
\<close>

fun first_some :: "('s \<Rightarrow> 'a option) \<Rightarrow> 's list \<Rightarrow> 'a option" where
  "first_some k [] = None"
| "first_some k (x # xs) = (case k x of Some r \<Rightarrow> Some r | None \<Rightarrow> first_some k xs)"

fun star_all :: "bool \<Rightarrow> cls \<Rightarrow> char option \<Rightarrow> (nat \<times> string) list \<Rightarrow> string \<Rightarrow> mstate list" where
  "star_all ic a p g [] = [(p, [], g)]"
| "star_all ic a p g (c # cs) =
     (if cls_match ic a c then star_all ic a (Some c) g cs @ [(p, c # cs, g)] else [(p, c # cs, g)])"

fun rep_all :: "bool \<Rightarrow> cls \<Rightarrow> nat \<Rightarrow> nat \<Rightarrow> char option \<Rightarrow> (nat \<times> string) list \<Rightarrow> string \<Rightarrow> mstate list" where
  "rep_all ic a lo hi p g [] = (if lo = 0 then [(p, [], g)] else [])"
| "rep_all ic a lo hi p g (c # cs) =
     (if hi > 0 \<and> cls_match ic a c
      then rep_all ic a (lo - 1) (hi - 1) (Some c) g cs @ (if lo = 0 then [(p, c # cs, g)] else [])
      else if lo = 0 then [(p, c # cs, g)] else [])"

fun cat_all :: "(mstate \<Rightarrow> mstate list) list \<Rightarrow> mstate \<Rightarrow> mstate list" where
  "cat_all [] st = [st]"
| "cat_all (f # fs) st = concat (map (cat_all fs) (f st))"

primrec rx_all :: "bool \<Rightarrow> rx \<Rightarrow> mstate \<Rightarrow> mstate list" where
  "rx_all ic (Atom a) st =
     (case st of (p, [], g) \<Rightarrow> []
      | (p, c # cs, g) \<Rightarrow> if cls_match ic a c then [(Some c, cs, g)] else [])"
| "rx_all ic (Cat rs) st = cat_all (map (rx_all ic) rs) st"
| "rx_all ic (Alt rs) st = concat (map (\<lambda>f. f st) (map (rx_all ic) rs))"
| "rx_all ic (Opt r) st = rx_all ic r st @ [st]"
| "rx_all ic (Star a) st = (case st of (p, s, g) \<Rightarrow> star_all ic a p g s)"
| "rx_all ic (Plus a) st =
     (case st of (p, [], g) \<Rightarrow> []
      | (p, c # cs, g) \<Rightarrow> if cls_match ic a c then star_all ic a (Some c) g cs else [])"
| "rx_all ic (Rep a lo hi) st = (case st of (p, s, g) \<Rightarrow> rep_all ic a lo hi p g s)"
| "rx_all ic (Grp n r) st =
     (case st of (p, s, g) \<Rightarrow>
        map (\<lambda>(p', s', g'). (p', s', (n, take (length s - length s') s) # g')) (rx_all ic r st))"
| "rx_all ic WordB st =
     (case st of (p, s, g) \<Rightarrow>
        if (case p of None \<Rightarrow> False | Some c \<Rightarrow> is_word c) \<noteq> (case s of [] \<Rightarrow> False | c # _ \<Rightarrow> is_word c)
        then [st] else [])"
| "rx_all ic Bol st = (case st of (p, s, g) \<Rightarrow> if p = None then [st] else [])"
| "rx_all ic Eol st = (case st of (p, s, g) \<Rightarrow> if s = [] \<or> s = [CHR 0x0A] then [st] else [])"

primrec grps :: "rx \<Rightarrow> nat set" where
  \<comment> \<open>the numbers of the groups of a pattern\<close>
  "grps (Atom a) = {}"
| "grps (Cat rs) = \<Union> (set (map grps rs))"
| "grps (Alt rs) = \<Union> (set (map grps rs))"
| "grps (Opt r) = grps r"
| "grps (Star a) = {}"
| "grps (Plus a) = {}"
| "grps (Rep a lo hi) = {}"
| "grps (Grp n r) = insert n (grps r)"
| "grps WordB = {}"
| "grps Bol = {}"
| "grps Eol = {}"

definition later :: "nat set \<Rightarrow> mstate \<Rightarrow> mstate \<Rightarrow> bool" where
  \<comment> \<open>a later state: a suffix of the text is left, the groups outside G are as they were\<close>
  "later G st st' \<longleftrightarrow>
     (\<exists>xs. fst (snd st) = xs @ fst (snd st')) \<and>
     (\<forall>n. n \<notin> G \<longrightarrow> map_of (snd (snd st')) n = map_of (snd (snd st)) n)"


subsection \<open>Patterns without anchors\<close>

primrec anchored :: "rx \<Rightarrow> bool" where
  \<comment> \<open>the pattern has an anchor \<open>^\<close> or \<open>$\<close>\<close>
  "anchored (Atom a) = False"
| "anchored (Cat rs) = list_ex (\<lambda>b. b) (map anchored rs)"
| "anchored (Alt rs) = list_ex (\<lambda>b. b) (map anchored rs)"
| "anchored (Opt r) = anchored r"
| "anchored (Star a) = False"
| "anchored (Plus a) = False"
| "anchored (Rep a lo hi) = False"
| "anchored (Grp n r) = anchored r"
| "anchored WordB = False"
| "anchored Bol = True"
| "anchored Eol = True"

definition wordness :: "char option \<Rightarrow> bool" where
  \<comment> \<open>what \<open>\b\<close> sees before a position\<close>
  "wordness p = (case p of None \<Rightarrow> False | Some c \<Rightarrow> is_word c)"

definition before :: "char option \<Rightarrow> string \<Rightarrow> char option" where
  \<comment> \<open>the character before the position after a text\<close>
  "before p u = (if u = [] then p else Some (last u))"

definition emb :: "string \<Rightarrow> mstate \<Rightarrow> mstate \<Rightarrow> bool" where
  \<comment> \<open>the same position in a text that goes on with e, after a character of the same kind\<close>
  "emb e st st2 \<longleftrightarrow>
     wordness (fst st2) = wordness (fst st) \<and> fst (snd st2) = fst (snd st) @ e \<and>
     snd (snd st2) = snd (snd st)"

definition sep_char :: "char \<Rightarrow> bool" where
  \<comment> \<open>the characters of the separators \<open>;\<close>, \<open>&&\<close> and \<open>||\<close>\<close>
  "sep_char c \<longleftrightarrow> c \<in> set '';&|''"

definition placed :: "string \<Rightarrow> string \<Rightarrow> string list \<Rightarrow> bool" where
  \<comment> \<open>x starts the text w and ends at a separator, every text of xs lies in w between
      separators\<close>
  "placed w x xs \<longleftrightarrow>
     (\<exists>b. w = x @ b \<and> (b = [] \<or> sep_char (hd b))) \<and>
     (\<forall>seg \<in> set xs. \<exists>a b. w = a @ seg @ b \<and> a \<noteq> [] \<and> sep_char (last a) \<and> (b = [] \<or> sep_char (hd b)))"

section \<open>The workflow data model (\<open>grip/workflow/models.py\<close>)\<close>

record StepDef =
  name :: string
  prompt :: string
  profile :: string
  depends_on :: "string list"
  timeout_seconds :: int

text \<open>The field \<open>name\<close> of a \<open>WorkflowDef\<close> is \<open>workflow_name\<close> here.\<close>

record WorkflowDef =
  workflow_name :: string
  description :: string
  steps :: "StepDef list"

datatype py_error = KeyError string | AttributeError | TypeError

text \<open>
  A \<open>dict\<close> is an association list in insertion order: \<open>map_of\<close> reads a key, and
  \<open>AList.update\<close> replaces the value of a key in place or appends a new key.
\<close>

type_synonym adjacency = "(string \<times> string list) list"
type_synonym in_degrees = "(string \<times> int) list"

subsection \<open>\<open>_build_graph\<close>\<close>

fun add_deps :: "string \<Rightarrow> string list \<Rightarrow> adjacency \<times> in_degrees \<Rightarrow> py_error + adjacency \<times> in_degrees" where
  \<comment> \<open>\<open>for dep in step.depends_on: adj[dep].append(step.name); in_degree[step.name] += 1\<close>\<close>
  "add_deps nm [] g = Inr g"
| "add_deps nm (dep # deps) (adj, in_degree) =
     (case map_of adj dep of
        None \<Rightarrow> Inl (KeyError dep)
      | Some succs \<Rightarrow>
          (case map_of in_degree nm of
             None \<Rightarrow> Inl (KeyError nm)
           | Some k \<Rightarrow>
               add_deps nm deps
                 (AList.update dep (succs @ [nm]) adj, AList.update nm (k + 1) in_degree)))"

fun build_loop :: "StepDef list \<Rightarrow> adjacency \<times> in_degrees \<Rightarrow> py_error + adjacency \<times> in_degrees" where
  "build_loop [] g = Inr g"
| "build_loop (step # rest) g =
     (case add_deps (name step) (depends_on step) g of
        Inl e \<Rightarrow> Inl e
      | Inr g' \<Rightarrow> build_loop rest g')"

definition build_graph :: "StepDef list \<Rightarrow> py_error + adjacency \<times> in_degrees" where
  "build_graph ss =
     build_loop ss
       (fold (\<lambda>s adj. AList.update (name s) [] adj) ss [],
        fold (\<lambda>s deg. AList.update (name s) 0 deg) ss [])"

subsection \<open>\<open>WorkflowDef.get_execution_order\<close>\<close>

fun relax :: "string list \<Rightarrow> in_degrees \<times> string list \<Rightarrow> py_error + in_degrees \<times> string list" where
  \<comment> \<open>\<open>for neighbor in adj[node]: in_degree[neighbor] -= 1; if it is 0: queue.append(neighbor)\<close>\<close>
  "relax [] st = Inr st"
| "relax (neighbor # rest) (in_degree, queue) =
     (case map_of in_degree neighbor of
        None \<Rightarrow> Inl (KeyError neighbor)
      | Some k \<Rightarrow>
          relax rest
            (AList.update neighbor (k - 1) in_degree,
             if k - 1 = 0 then queue @ [neighbor] else queue))"

fun process_layer :: "adjacency \<Rightarrow> string list \<Rightarrow> in_degrees \<times> string list \<Rightarrow> py_error + in_degrees \<times> string list" where
  \<comment> \<open>\<open>for node in layer: ...\<close>\<close>
  "process_layer adj [] st = Inr st"
| "process_layer adj (node # rest) st =
     (case map_of adj node of
        None \<Rightarrow> Inl (KeyError node)
      | Some neighbors \<Rightarrow>
          (case relax neighbors st of
             Inl e \<Rightarrow> Inl e
           | Inr st' \<Rightarrow> process_layer adj rest st'))"

definition deg_weight :: "in_degrees \<Rightarrow> nat" where
  \<comment> \<open>the sum of the positive in-degrees: what the loop of \<open>get_execution_order\<close> uses up\<close>
  "deg_weight in_degree = sum_list (map (\<lambda>(n, k). nat k) in_degree)"

text \<open>
  Each pass of the loop of \<open>get_execution_order\<close> either leaves the queue empty or
  lowers the sum of the positive in-degrees: a neighbour is queued only when its
  in-degree steps from 1 to 0. So the loop terminates on every graph.
\<close>

lemma deg_weight_update:
  "map_of deg n = Some k \<Longrightarrow> deg_weight (AList.update n v deg) + nat k = deg_weight deg + nat v"
  unfolding deg_weight_def by (induction deg) (auto split: if_splits)

lemma relax_weight:
  "relax nbs (deg, q) = Inr (deg', q') \<Longrightarrow> deg_weight deg' + length q' \<le> deg_weight deg + length q"
proof (induction nbs arbitrary: deg q)
  case Nil
  then show ?case by simp
next
  case (Cons nb nbs)
  from Cons.prems obtain k where k: "map_of deg nb = Some k"
    by (auto split: option.splits)
  let ?deg1 = "AList.update nb (k - 1) deg"
  let ?q1 = "if k - 1 = 0 then q @ [nb] else q"
  from Cons.prems k have "relax nbs (?deg1, ?q1) = Inr (deg', q')" by simp
  then have "deg_weight deg' + length q' \<le> deg_weight ?deg1 + length ?q1" by (rule Cons.IH)
  moreover have "deg_weight ?deg1 + length ?q1 \<le> deg_weight deg + length q"
    using deg_weight_update [OF k, of "k - 1"] by (auto split: if_splits)
  ultimately show ?case by linarith
qed

lemma process_layer_weight:
  "process_layer adj layer (deg, q) = Inr (deg', q') \<Longrightarrow> deg_weight deg' + length q' \<le> deg_weight deg + length q"
proof (induction layer arbitrary: deg q)
  case Nil
  then show ?case by simp
next
  case (Cons node layer)
  from Cons.prems obtain nbs deg1 q1 where
    s: "map_of adj node = Some nbs" "relax nbs (deg, q) = Inr (deg1, q1)"
       "process_layer adj layer (deg1, q1) = Inr (deg', q')"
    by (auto split: option.splits sum.splits)
  from relax_weight [OF s(2)] Cons.IH [OF s(3)] show ?case by linarith
qed

function kahn_loop :: "adjacency \<Rightarrow> in_degrees \<Rightarrow> string list \<Rightarrow> py_error + string list list" where
  "kahn_loop adj in_degree queue =
     (if queue = [] then Inr []
      else
        (let layer = sort queue in
         case process_layer adj layer (in_degree, []) of
           Inl e \<Rightarrow> Inl e
         | Inr (in_degree', queue') \<Rightarrow>
             (case kahn_loop adj in_degree' queue' of
                Inl e \<Rightarrow> Inl e
              | Inr layers \<Rightarrow> Inr (layer # layers))))"
  by pat_completeness auto
termination
proof (relation "measure (\<lambda>(adj, in_degree, queue). if queue = [] then 0 else Suc (deg_weight in_degree))")
  show "wf (measure (\<lambda>(adj, in_degree, queue). if queue = [] then 0 else Suc (deg_weight in_degree)))"
    by simp
next
  fix adj :: adjacency and in_degree :: in_degrees and queue layer :: "string list"
    and x2 :: "in_degrees \<times> string list" and in_degree' queue'
  assume q: "queue \<noteq> []" and l: "layer = sort queue"
    and p: "process_layer adj layer (in_degree, []) = Inr x2" and x: "(in_degree', queue') = x2"
  from p x have "process_layer adj layer (in_degree, []) = Inr (in_degree', queue')" by simp
  from process_layer_weight [OF this]
  have "deg_weight in_degree' + length queue' \<le> deg_weight in_degree" by simp
  then show "((adj, in_degree', queue'), (adj, in_degree, queue))
      \<in> measure (\<lambda>(adj, in_degree, queue). if queue = [] then 0 else Suc (deg_weight in_degree))"
    using q by (cases queue') auto
qed

declare kahn_loop.simps [simp del]

definition get_execution_order :: "WorkflowDef \<Rightarrow> py_error + string list list" where
  "get_execution_order workflow =
     (case build_graph (steps workflow) of
        Inl e \<Rightarrow> Inl e
      | Inr (adj, in_degree) \<Rightarrow>
          kahn_loop adj in_degree (map fst (filter (\<lambda>(n, d). d = 0) in_degree)))"

subsection \<open>\<open>WorkflowDef.validate\<close>\<close>

definition STEP_NAME_RE :: rx where
  \<comment> \<open>\<^verbatim>\<open>^[\w-]+$\<close>, compiled without flags\<close>
  "STEP_NAME_RE = Cat [Bol, Plus (OneOf [WordC, Lit CHR ''-'']), Eol]"

definition quoted :: "string \<Rightarrow> string" where
  \<comment> \<open>a value between apostrophes, as the messages write it\<close>
  "quoted s = [CHR 0x27] @ s @ [CHR 0x27]"

definition name_errors :: "WorkflowDef \<Rightarrow> string list" where
  "name_errors workflow =
     (if workflow_name workflow = [] \<or> strip (workflow_name workflow) = []
      then [''Workflow name cannot be empty''] else [])"

definition step_errors :: "StepDef \<Rightarrow> string list" where
  \<comment> \<open>the body of the first \<open>for step in self.steps\<close> loop\<close>
  "step_errors step =
     (if name step = [] \<or> re_match False STEP_NAME_RE (name step) = None
      then [''Step name '' @ quoted (name step) @
            '' is invalid (must be non-empty, only alphanumeric/underscore/hyphen)'']
      else []) @
     (if prompt step = [] \<or> strip (prompt step) = []
      then [''Step '' @ quoted (name step) @ '' has an empty prompt'']
      else []) @
     (if timeout_seconds step < 1
      then [''Step '' @ quoted (name step) @ '' has invalid timeout ('' @
            str_int (timeout_seconds step) @ ''s); must be >= 1'']
      else [])"

definition unknown_dep_errors :: "string set \<Rightarrow> StepDef \<Rightarrow> string list" where
  \<comment> \<open>the body of the second \<open>for step in self.steps\<close> loop\<close>
  "unknown_dep_errors names step =
     concat (map (\<lambda>dep. if dep \<notin> names
                         then [''Step '' @ quoted (name step) @ '' depends on unknown step '' @ quoted dep]
                         else [])
                 (depends_on step))"

definition checks_before_cycle :: "WorkflowDef \<Rightarrow> string list" where
  \<comment> \<open>the errors collected before \<open>if not errors:\<close>, for a workflow that has steps\<close>
  "checks_before_cycle workflow =
     (let names = set (map name (steps workflow)) in
      name_errors workflow @
      concat (map step_errors (steps workflow)) @
      (if card names \<noteq> length (steps workflow) then [''Duplicate step names found''] else []) @
      concat (map (unknown_dep_errors names) (steps workflow)))"

definition validate :: "WorkflowDef \<Rightarrow> py_error + string list" where
  "validate workflow =
     (if steps workflow = []
      then Inr (name_errors workflow @ [''Workflow must have at least one step''])
      else
        (let errors = checks_before_cycle workflow in
         if errors = [] then
           (case get_execution_order workflow of
              Inl e \<Rightarrow> Inl e
            | Inr layers \<Rightarrow>
                if sum_list (map length layers) \<noteq> length (steps workflow)
                then Inr (errors @ [''Circular dependency detected in workflow steps''])
                else Inr errors)
         else Inr errors))"

section \<open>The dependency graph of a workflow\<close>

text \<open>
  Notions the statements about \<open>validate\<close> and \<open>get_execution_order\<close> are written in;
  none of them is part of the program. The edges of a workflow are the pairs of a
  dependency and the step that names it, with repetitions, in the order \<open>_build_graph\<close>
  visits them.
\<close>

definition edges :: "StepDef list \<Rightarrow> (string \<times> string) list" where
  "edges ss = concat (map (\<lambda>s. map (\<lambda>dep. (dep, name s)) (depends_on s)) ss)"

definition succs_of :: "(string \<times> string) list \<Rightarrow> string \<Rightarrow> string list" where
  "succs_of es n = map snd (filter (\<lambda>e. fst e = n) es)"

definition indeg_of :: "(string \<times> string) list \<Rightarrow> string \<Rightarrow> int" where
  "indeg_of es m = int (length (filter (\<lambda>e. snd e = m) es))"

definition graph_of :: "string set \<Rightarrow> (string \<times> string) list \<Rightarrow> adjacency \<times> in_degrees \<Rightarrow> bool" where
  \<comment> \<open>the two dictionaries hold, for the keys N, the edges es\<close>
  "graph_of N es g \<longleftrightarrow>
     (case g of (adj, deg) \<Rightarrow>
        dom (map_of adj) = N \<and> dom (map_of deg) = N \<and> distinct (map fst deg) \<and>
        (\<forall>n \<in> N. map_of adj n = Some (succs_of es n)) \<and>
        (\<forall>m \<in> N. map_of deg m = Some (indeg_of es m)))"

definition deps_resolved :: "StepDef list \<Rightarrow> bool" where
  "deps_resolved ss \<longleftrightarrow> (\<forall>s \<in> set ss. \<forall>dep \<in> set (depends_on s). dep \<in> name ` set ss)"

definition pending_in :: "(string \<times> string) list \<Rightarrow> string set \<Rightarrow> string \<Rightarrow> int" where
  "pending_in es Done m = int (length (filter (\<lambda>e. snd e = m \<and> fst e \<notin> Done) es))"

definition kahn_inv :: "string set \<Rightarrow> (string \<times> string) list \<Rightarrow> adjacency \<Rightarrow> string set \<Rightarrow> in_degrees \<Rightarrow> string list \<Rightarrow> bool" where
  \<comment> \<open>the state of the loop of \<open>get_execution_order\<close> once the nodes Done have left the queue\<close>
  "kahn_inv N es adj Done deg queue \<longleftrightarrow>
     (\<forall>n \<in> N. map_of adj n = Some (succs_of es n)) \<and>
     (\<forall>e \<in> set es. fst e \<in> N \<and> snd e \<in> N) \<and>
     dom (map_of deg) = N \<and> distinct queue \<and> set queue \<subseteq> N \<and> set queue \<inter> Done = {} \<and>
     (\<forall>m \<in> N. map_of deg m = Some (pending_in es Done m)) \<and>
     (\<forall>m \<in> Done \<union> set queue. pending_in es Done m = 0)"

definition layered :: "(string \<times> string) list \<Rightarrow> string set \<Rightarrow> string list list \<Rightarrow> bool" where
  \<comment> \<open>every edge into a node of layer k comes from Done or from a layer before k\<close>
  "layered es Done layers \<longleftrightarrow>
     (\<forall>k < length layers. \<forall>m \<in> set (layers ! k). \<forall>e \<in> set es.
        snd e = m \<longrightarrow> fst e \<in> Done \<or> (\<exists>j < k. fst e \<in> set (layers ! j)))"

definition dep_rel :: "StepDef list \<Rightarrow> (string \<times> string) set" where
  \<comment> \<open>a step's name is related to each name in its \<open>depends_on\<close>\<close>
  "dep_rel ss = {(a, b). \<exists>s \<in> set ss. name s = a \<and> b \<in> set (depends_on s)}"

definition has_cycle :: "StepDef list \<Rightarrow> bool" where
  "has_cycle ss \<longleftrightarrow> (\<exists>n. (n, n) \<in> (dep_rel ss)\<^sup>+)"

subsection \<open>Example workflows\<close>

definition mk_step :: "string \<Rightarrow> string \<Rightarrow> string list \<Rightarrow> StepDef" where
  \<comment> \<open>\<open>StepDef(name, prompt, depends_on=...)\<close> with the default profile and timeout\<close>
  "mk_step n p deps =
     \<lparr>name = n, prompt = p, profile = ''default'', depends_on = deps, timeout_seconds = 300\<rparr>"

definition join_example :: WorkflowDef where
  \<comment> \<open>steps a and b, and c that depends on both\<close>
  "join_example =
     \<lparr>workflow_name = ''join'', description = '''',
      steps = [mk_step ''c'' ''C'' [''a'', ''b''], mk_step ''a'' ''A'' [], mk_step ''b'' ''B'' []]\<rparr>"

definition cyclic_example :: WorkflowDef where
  \<comment> \<open>a depends on b and b on a\<close>
  "cyclic_example =
     \<lparr>workflow_name = ''loop'', description = '''',
      steps = [mk_step ''a'' ''A'' [''b''], mk_step ''b'' ''B'' [''a'']]\<rparr>"

definition unnamed_cyclic_example :: WorkflowDef where
  \<comment> \<open>the same cycle in a workflow whose name is empty\<close>
  "unnamed_cyclic_example =
     \<lparr>workflow_name = '''', description = '''',
      steps = [mk_step ''a'' ''A'' [''b''], mk_step ''b'' ''B'' [''a'']]\<rparr>"

definition dangling_example :: WorkflowDef where
  \<comment> \<open>a depends on a step that does not exist\<close>
  "dangling_example =
     \<lparr>workflow_name = ''dangling'', description = '''',
      steps = [mk_step ''a'' ''A'' [''ghost'']]\<rparr>"

section \<open>The cron-phrase parser (\<open>grip/tools/scheduler.py\<close>)\<close>

definition DAY_MAP :: "(string \<times> string) list" where
  "DAY_MAP =
     [(''monday'', ''1''),
      (''tuesday'', ''2''),
      (''wednesday'', ''3''),
      (''thursday'', ''4''),
      (''friday'', ''5''),
      (''saturday'', ''6''),
      (''sunday'', ''0''),
      (''mon'', ''1''),
      (''tue'', ''2''),
      (''wed'', ''3''),
      (''thu'', ''4''),
      (''fri'', ''5''),
      (''sat'', ''6''),
      (''sun'', ''0'')]"

definition group_str :: "(nat \<times> string) list \<Rightarrow> nat \<Rightarrow> string" where
  \<comment> \<open>\<open>m.group(n)\<close> as an f-string writes it\<close>
  "group_str m n = (case group m n of Some s \<Rightarrow> s | None \<Rightarrow> ''None'')"

definition HOUR_RX :: "nat \<Rightarrow> rx list" where
  \<comment> \<open>\<^verbatim>\<open>(\d{1,2})\s*(am|pm)?\<close>, the end of three of the patterns; n numbers its first group\<close>
  "HOUR_RX n = [Grp n (Rep Digit 1 2), Star Space, Opt (Grp (n + 1) (Alt [Str ''am'', Str ''pm'']))]"

definition EVERY_DAY_RX :: rx where
  \<comment> \<open>\<^verbatim>\<open>every\s+day\s+at\s+(\d{1,2})\s*(am|pm)?\<close>\<close>
  "EVERY_DAY_RX =
     Cat ([Str ''every'', Plus Space, Str ''day'', Plus Space, Str ''at'', Plus Space] @ HOUR_RX 1)"

definition DAY_RX :: rx where
  \<comment> \<open>\<^verbatim>\<open>every\s+(monday|tuesday|wednesday|thursday|friday|saturday|sunday|mon|tue|wed|thu|fri|sat|sun)\s+at\s+(\d{1,2})\s*(am|pm)?\<close>\<close>
  "DAY_RX =
     Cat ([Str ''every'', Plus Space,
           Grp 1 (Alt [Str ''monday'', Str ''tuesday'', Str ''wednesday'', Str ''thursday'',
                       Str ''friday'', Str ''saturday'', Str ''sunday'', Str ''mon'', Str ''tue'',
                       Str ''wed'', Str ''thu'', Str ''fri'', Str ''sat'', Str ''sun'']),
           Plus Space, Str ''at'', Plus Space] @ HOUR_RX 2)"

definition WEEKDAY_RX :: rx where
  \<comment> \<open>\<^verbatim>\<open>every\s+weekday\s+at\s+(\d{1,2})\s*(am|pm)?\<close>\<close>
  "WEEKDAY_RX =
     Cat ([Str ''every'', Plus Space, Str ''weekday'', Plus Space, Str ''at'', Plus Space] @ HOUR_RX 1)"

definition MINUTES_RX :: rx where
  \<comment> \<open>\<^verbatim>\<open>every\s+(\d+)\s+minutes?\<close>\<close>
  "MINUTES_RX =
     Cat [Str ''every'', Plus Space, Grp 1 (Plus Digit), Plus Space, Str ''minute'',
          Opt (Atom (Lit CHR ''s''))]"

definition HOURS_RX :: rx where
  \<comment> \<open>\<^verbatim>\<open>every\s+(\d+)\s+hours?\<close>\<close>
  "HOURS_RX =
     Cat [Str ''every'', Plus Space, Grp 1 (Plus Digit), Plus Space, Str ''hour'',
          Opt (Atom (Lit CHR ''s''))]"

definition EVERY_MINUTE_RX :: rx where
  \<comment> \<open>\<^verbatim>\<open>every\s+minute\<close>\<close>
  "EVERY_MINUTE_RX = Cat [Str ''every'', Plus Space, Str ''minute'']"

definition EVERY_HOUR_RX :: rx where
  \<comment> \<open>\<^verbatim>\<open>every\s+hour\<close>\<close>
  "EVERY_HOUR_RX = Cat [Str ''every'', Plus Space, Str ''hour'']"

definition MONTH_RX :: rx where
  \<comment> \<open>\<^verbatim>\<open>every\s+month\s+on\s+the\s+(\d{1,2})(st|nd|rd|th)?\<close>\<close>
  "MONTH_RX =
     Cat [Str ''every'', Plus Space, Str ''month'', Plus Space, Str ''on'', Plus Space,
          Str ''the'', Plus Space, Grp 1 (Rep Digit 1 2),
          Opt (Grp 2 (Alt [Str ''st'', Str ''nd'', Str ''rd'', Str ''th'']))]"

definition CRON_FIELD :: cls where
  \<comment> \<open>\<^verbatim>\<open>[*\d/,\-]\<close>\<close>
  "CRON_FIELD = OneOf [Lit CHR ''*'', Digit, Lit CHR ''/'', Lit CHR '','', Lit CHR ''-'']"

definition CRON_RX :: rx where
  \<comment> \<open>\<^verbatim>\<open>^([*\d/,\-]+\s+[*\d/,\-]+\s+[*\d/,\-]+\s+[*\d/,\-]+\s+[*\d/,\-]+)$\<close>, compiled without
      flags\<close>
  "CRON_RX =
     Cat [Bol,
          Grp 1 (Cat [Plus CRON_FIELD, Plus Space, Plus CRON_FIELD, Plus Space, Plus CRON_FIELD,
                      Plus Space, Plus CRON_FIELD, Plus Space, Plus CRON_FIELD]),
          Eol]"

text \<open>
  \<open>_NL_PATTERNS\<close>: each pattern (compiled with \<open>re.IGNORECASE\<close>) with its handler; the
  three patterns whose handler is \<open>None\<close> are handled after the loop.
\<close>

definition NL_PATTERNS :: "(rx \<times> ((nat \<times> string) list \<Rightarrow> string) option) list" where
  "NL_PATTERNS =
     [(MINUTES_RX, Some (\<lambda>m. ''*/'' @ group_str m 1 @ '' * * * *'')),
      (HOURS_RX, Some (\<lambda>m. ''0 */'' @ group_str m 1 @ '' * * *'')),
      (EVERY_MINUTE_RX, Some (\<lambda>m. ''* * * * *'')),
      (EVERY_HOUR_RX, Some (\<lambda>m. ''0 * * * *'')),
      (EVERY_DAY_RX, None),
      (DAY_RX, None),
      (MONTH_RX, Some (\<lambda>m. ''0 0 '' @ group_str m 1 @ '' * *'')),
      (WEEKDAY_RX, None)]"

definition digit_value :: "char \<Rightarrow> nat" where
  "digit_value c = (of_char c :: nat) - 48"

definition int_of_digits :: "string \<Rightarrow> int" where
  \<comment> \<open>\<open>int(s)\<close> for a string of decimal digits, which is what \<^verbatim>\<open>\d{1,2}\<close> captures\<close>
  "int_of_digits s = int (foldl (\<lambda>a c. 10 * a + digit_value c) 0 s)"

definition parse_hour :: "string \<Rightarrow> string option \<Rightarrow> int" where
  "parse_hour hour_str ampm =
     (let hour = int_of_digits hour_str in
      if truthy ampm then
        (let ampm = py_lower (the ampm) in
         if ampm = ''pm'' \<and> hour \<noteq> 12 then hour + 12
         else if ampm = ''am'' \<and> hour = 12 then 0
         else hour)
      else hour)"

fun nl_loop :: "(rx \<times> ((nat \<times> string) list \<Rightarrow> string) option) list \<Rightarrow> string \<Rightarrow> string option" where
  \<comment> \<open>\<open>for pattern, handler in _NL_PATTERNS\<close>: returns at the first match with a handler\<close>
  "nl_loop [] text = None"
| "nl_loop ((pattern, handler) # rest) text =
     (case re_search True pattern text of
        None \<Rightarrow> nl_loop rest text
      | Some m \<Rightarrow> (case handler of Some h \<Rightarrow> Some (h m) | None \<Rightarrow> nl_loop rest text))"

definition parse_natural_language :: "string \<Rightarrow> string option" where
  "parse_natural_language expression =
     (let text = strip expression in
      case nl_loop NL_PATTERNS text of
        Some cron \<Rightarrow> Some cron
      | None \<Rightarrow>
          (case re_search True EVERY_DAY_RX text of
             Some every_day_match \<Rightarrow>
               Some (''0 '' @ str_int (parse_hour (group_str every_day_match 1) (group every_day_match 2)) @
                     '' * * *'')
           | None \<Rightarrow>
               (case re_search True DAY_RX text of
                  Some day_match \<Rightarrow>
                    (let day = (case map_of DAY_MAP (py_lower (group_str day_match 1)) of
                                  Some d \<Rightarrow> d | None \<Rightarrow> ''0'');
                         hour = parse_hour (group_str day_match 2) (group day_match 3)
                     in Some (''0 '' @ str_int hour @ '' * * '' @ day))
                | None \<Rightarrow>
                    (case re_search True WEEKDAY_RX text of
                       Some weekday_match \<Rightarrow>
                         Some (''0 '' @ str_int (parse_hour (group_str weekday_match 1) (group weekday_match 2)) @
                               '' * * 1-5'')
                     | None \<Rightarrow>
                         (case re_match False CRON_RX text of
                            Some cron_match \<Rightarrow> Some (group_str cron_match 1)
                          | None \<Rightarrow> None)))))"

subsection \<open>Cron expressions\<close>

definition field_ok :: "string \<Rightarrow> bool" where
  \<comment> \<open>a field of a cron expression: one or more of the characters \<open>* 0-9 / , -\<close>\<close>
  "field_ok f \<longleftrightarrow> f \<noteq> [] \<and> list_all (cls_match False CRON_FIELD) f"

definition cron5 :: "string \<Rightarrow> string \<Rightarrow> string \<Rightarrow> string \<Rightarrow> string \<Rightarrow> string" where
  \<comment> \<open>five fields separated by single spaces\<close>
  "cron5 f1 f2 f3 f4 f5 = f1 @ '' '' @ f2 @ '' '' @ f3 @ '' '' @ f4 @ '' '' @ f5"

subsection \<open>The phrases of the specification\<close>








section \<open>The heartbeat service (\<open>grip/heartbeat/service.py\<close>)\<close>

text \<open>
  One beat is sequential: every \<open>await\<close> is a call whose result the next statement uses.
  The engine and the bus are parameters of the service. A call returns a value, or raises
  an exception of class \<open>Exception\<close> (with the text \<open>str(exc)\<close>), which \<open>except Exception\<close>
  catches, or raises an exception outside that class (\<open>asyncio.CancelledError\<close>,
  \<open>KeyboardInterrupt\<close>, \<open>SystemExit\<close>), which \<open>except Exception\<close> lets through.
\<close>

datatype 'a outcome = Returned 'a | Raised string | Escaped string

text \<open>
  HEARTBEAT.md: missing (\<open>exists()\<close> is false), not readable (\<open>exists()\<close> or \<open>read_text\<close>
  raises an \<open>OSError\<close> or a \<open>UnicodeDecodeError\<close>; both calls are before the \<open>try\<close>), or
  present with the characters it decodes to.
\<close>

datatype heartbeat_md = Missing | Unreadable string | Stored string

fun universal_newlines :: "string \<Rightarrow> string" where
  \<comment> \<open>\<open>read_text\<close> opens the file in text mode: \<open>\r\n\<close> and \<open>\r\<close> are read as \<open>\n\<close>\<close>
  "universal_newlines [] = []"
| "universal_newlines (c # cs) =
     (if c = CHR 0x0D
      then (case cs of
              [] \<Rightarrow> [CHR 0x0A]
            | c' # cs' \<Rightarrow>
                if c' = CHR 0x0A then CHR 0x0A # universal_newlines cs'
                else CHR 0x0A # universal_newlines cs)
      else c # universal_newlines cs)"

record RunResult =
  response :: string
  iterations :: int
  total_tokens :: int

text \<open>The field \<open>text\<close> of an \<open>OutboundMessage\<close> is \<open>msg_text\<close> here.\<close>

record OutboundMessage =
  channel :: string
  chat_id :: string
  msg_text :: string

record HeartbeatService =
  heartbeat_file :: heartbeat_md
  engine_run :: "string \<Rightarrow> string \<Rightarrow> RunResult outcome"
  bus :: "(OutboundMessage \<Rightarrow> unit outcome) option"
  reply_to :: string

text \<open>
  The trace of a beat: the calls of \<open>engine.run\<close> (prompt and session key), the calls of
  \<open>bus.publish_outbound\<close>, and the exception that leaves \<open>_beat\<close>, if any.
\<close>

record beat_trace =
  engine_calls :: "(string \<times> string) list"
  bus_calls :: "OutboundMessage list"
  propagated :: "string option"

definition SESSION_KEY :: string where
  "SESSION_KEY = ''heartbeat:periodic''"

definition split_once :: "char \<Rightarrow> string \<Rightarrow> string list" where
  \<comment> \<open>\<open>s.split(sep, 1)\<close> for a one-character separator\<close>
  "split_once sep s =
     (if sep \<in> set s
      then [takeWhile (\<lambda>c. c \<noteq> sep) s, tl (dropWhile (\<lambda>c. c \<noteq> sep) s)]
      else [s])"

definition publish_result :: "HeartbeatService \<Rightarrow> string \<Rightarrow> beat_trace \<Rightarrow> beat_trace" where
  \<comment> \<open>\<open>_publish_result\<close>: an \<open>Exception\<close> of \<open>publish_outbound\<close> is logged and dropped by its own
      \<open>try\<close>; any other exception leaves it\<close>
  "publish_result svc txt tr =
     (let parts = split_once CHR '':'' (reply_to svc) in
      if length parts \<noteq> 2 then tr
      else
        (case bus svc of
           None \<Rightarrow> tr
         | Some publish_outbound \<Rightarrow>
             (let message = \<lparr>channel = parts ! 0, chat_id = parts ! 1, msg_text = txt\<rparr> in
              case publish_outbound message of
                Returned u \<Rightarrow> tr\<lparr>bus_calls := bus_calls tr @ [message]\<rparr>
              | Raised exc \<Rightarrow> tr\<lparr>bus_calls := bus_calls tr @ [message]\<rparr>
              | Escaped exc \<Rightarrow> tr\<lparr>bus_calls := bus_calls tr @ [message], propagated := Some exc\<rparr>)))"

definition beat :: "HeartbeatService \<Rightarrow> beat_trace" where
  \<comment> \<open>\<open>_beat\<close>: \<open>read_text\<close> is called before the \<open>try\<close>, the engine and the publication of its
      response inside it, the publication of the diagnostic in the \<open>except Exception\<close> branch\<close>
  "beat svc =
     (let tr = \<lparr>engine_calls = [], bus_calls = [], propagated = None\<rparr> in
      case heartbeat_file svc of
        Missing \<Rightarrow> tr
      | Unreadable exc \<Rightarrow> tr\<lparr>propagated := Some exc\<rparr>
      | Stored raw \<Rightarrow>
          (let content = strip (universal_newlines raw) in
           if content = [] then tr
           else
             (let tr = tr\<lparr>engine_calls := engine_calls tr @ [(content, SESSION_KEY)]\<rparr> in
              case engine_run svc content SESSION_KEY of
                Returned result \<Rightarrow>
                  if reply_to svc \<noteq> [] \<and> bus svc \<noteq> None \<and> response result \<noteq> []
                  then publish_result svc (response result) tr
                  else tr
              | Raised exc \<Rightarrow>
                  if reply_to svc \<noteq> [] \<and> bus svc \<noteq> None
                  then publish_result svc (''Heartbeat run failed: '' @ exc) tr
                  else tr
              | Escaped exc \<Rightarrow> tr\<lparr>propagated := Some exc\<rparr>)))"

definition reply_to_well_formed :: "string \<Rightarrow> bool" where
  \<comment> \<open>\<open>channel:id\<close>, as \<open>_publish_result\<close> tests it: splitting at the first colon gives two parts\<close>
  "reply_to_well_formed r \<longleftrightarrow> length (split_once CHR '':'' r) = 2"

definition reply_message :: "string \<Rightarrow> string \<Rightarrow> OutboundMessage" where
  \<comment> \<open>the message for a well-formed \<open>reply_to\<close>: channel before the first colon, id after it\<close>
  "reply_message r txt =
     \<lparr>channel = takeWhile (\<lambda>c. c \<noteq> CHR '':'') r,
      chat_id = tl (dropWhile (\<lambda>c. c \<noteq> CHR '':'') r),
      msg_text = txt\<rparr>"

definition bus_outcome :: "HeartbeatService \<Rightarrow> string \<Rightarrow> unit outcome" where
  \<comment> \<open>how the bus answers the publication of a text; a service without a bus publishes nothing\<close>
  "bus_outcome svc txt =
     (case bus svc of None \<Rightarrow> Returned () | Some publish_outbound \<Rightarrow> publish_outbound (reply_message (reply_to svc) txt))"

definition escape_of :: "'a outcome \<Rightarrow> string option" where
  \<comment> \<open>the exception of a call that \<open>except Exception\<close> does not catch\<close>
  "escape_of r = (case r of Escaped exc \<Rightarrow> Some exc | _ \<Rightarrow> None)"

subsection \<open>Example services\<close>

definition fake_bus :: "OutboundMessage \<Rightarrow> unit outcome" where
  "fake_bus message = Returned ()"

definition delivery_example :: HeartbeatService where
  \<comment> \<open>the delivery scenario: the engine answers \<open>Heartbeat result\<close>\<close>
  "delivery_example =
     \<lparr>heartbeat_file = Stored ''Check health'',
      engine_run = (\<lambda>prompt key. Returned \<lparr>response = ''Heartbeat result'', iterations = 1, total_tokens = 10\<rparr>),
      bus = Some fake_bus,
      reply_to = ''telegram:99999''\<rparr>"

definition silent_example :: HeartbeatService where
  \<comment> \<open>the same service with an engine that answers the empty string\<close>
  "silent_example =
     \<lparr>heartbeat_file = Stored ''Check health'',
      engine_run = (\<lambda>prompt key. Returned \<lparr>response = '''', iterations = 1, total_tokens = 10\<rparr>),
      bus = Some fake_bus,
      reply_to = ''telegram:99999''\<rparr>"

definition failing_example :: HeartbeatService where
  \<comment> \<open>an engine that raises, and a file of two lines that end in \<open>\r\n\<close>\<close>
  "failing_example =
     \<lparr>heartbeat_file = Stored (''Check health'' @ [CHR 0x0D, CHR 0x0A] @ ''Check disk'' @ [CHR 0x0D, CHR 0x0A]),
      engine_run = (\<lambda>prompt key. Raised ''boom''),
      bus = Some fake_bus,
      reply_to = ''discord:chan1''\<rparr>"

definition blank_example :: HeartbeatService where
  \<comment> \<open>a file of white space only\<close>
  "blank_example =
     \<lparr>heartbeat_file = Stored ('' '' @ [CHR 0x0A]),
      engine_run = (\<lambda>prompt key. Raised ''boom''),
      bus = Some fake_bus,
      reply_to = ''discord:chan1''\<rparr>"

definition cancelled_example :: HeartbeatService where
  \<comment> \<open>the task is cancelled while the engine runs\<close>
  "cancelled_example =
     \<lparr>heartbeat_file = Stored ''Check health'',
      engine_run = (\<lambda>prompt key. Escaped ''CancelledError''),
      bus = Some fake_bus,
      reply_to = ''telegram:99999''\<rparr>"

definition unreadable_example :: HeartbeatService where
  \<comment> \<open>a file that is not valid UTF-8\<close>
  "unreadable_example =
     \<lparr>heartbeat_file = Unreadable ''UnicodeDecodeError'',
      engine_run = (\<lambda>prompt key. Raised ''boom''),
      bus = Some fake_bus,
      reply_to = ''telegram:99999''\<rparr>"

section \<open>Migration of legacy cron files (\<open>grip/tools/scheduler.py\<close>)\<close>

text \<open>
  A JSON value as \<open>json.loads\<close> returns it; numbers are integers here, and an object
  lists each of its keys once. The cron directory is the list of its files in the order
  \<open>glob\<close> yields them, each with what reading and parsing it gives: a value, or a failure
  (\<open>JSONDecodeError\<close> or \<open>OSError\<close>).
\<close>

datatype json = JNull | JBool bool | JInt int | JStr string | JArr "json list" | JObj "(string \<times> json) list"

datatype file_content = Json json | Unparsable

type_synonym cron_dir = "(string \<times> file_content) list"

definition endswith :: "string \<Rightarrow> string \<Rightarrow> bool" where
  "endswith s suffix \<longleftrightarrow> length suffix \<le> length s \<and> drop (length s - length suffix) s = suffix"

definition obj_get :: "(string \<times> json) list \<Rightarrow> string \<Rightarrow> json \<Rightarrow> json" where
  \<comment> \<open>\<open>d.get(key, dflt)\<close> on a dict\<close>
  "obj_get d k dflt = (case map_of d k of Some v \<Rightarrow> v | None \<Rightarrow> dflt)"

definition hashable :: "json \<Rightarrow> bool" where
  \<comment> \<open>lists and dicts cannot be members of a set\<close>
  "hashable v \<longleftrightarrow> (case v of JArr xs \<Rightarrow> False | JObj d \<Rightarrow> False | _ \<Rightarrow> True)"

fun py_eq :: "json \<Rightarrow> json \<Rightarrow> bool" where
  \<comment> \<open>\<open>==\<close> on hashable values: \<open>True == 1\<close> and \<open>False == 0\<close>\<close>
  "py_eq (JBool b) (JInt i) = (i = (if b then 1 else 0))"
| "py_eq (JInt i) (JBool b) = (i = (if b then 1 else 0))"
| "py_eq a b = (a = b)"

definition load_jobs_file :: "cron_dir \<Rightarrow> json list" where
  "load_jobs_file dir =
     (case map_of dir ''jobs.json'' of
        None \<Rightarrow> []
      | Some Unparsable \<Rightarrow> []
      | Some (Json data) \<Rightarrow> (case data of JArr jobs \<Rightarrow> jobs | _ \<Rightarrow> []))"

definition save_jobs_file :: "cron_dir \<Rightarrow> json list \<Rightarrow> cron_dir" where
  \<comment> \<open>writes \<open>jobs.tmp\<close> and renames it to \<open>jobs.json\<close>\<close>
  "save_jobs_file dir jobs =
     AList.update ''jobs.json'' (Json (JArr jobs)) (AList.delete ''jobs.tmp'' dir)"

fun existing_ids_of :: "json list \<Rightarrow> py_error + json list" where
  \<comment> \<open>\<open>{j.get("id") for j in jobs}\<close>\<close>
  "existing_ids_of [] = Inr []"
| "existing_ids_of (j # js) =
     (case j of
        JObj d \<Rightarrow>
          (let i = obj_get d ''id'' JNull in
           if \<not> hashable i then Inl TypeError
           else (case existing_ids_of js of Inl e \<Rightarrow> Inl e | Inr ids \<Rightarrow> Inr (i # ids)))
      | _ \<Rightarrow> Inl AttributeError)"

definition migrated_entry :: "string \<Rightarrow> (string \<times> json) list \<Rightarrow> string \<Rightarrow> json" where
  "migrated_entry entry_id entry now =
     JObj [(''id'', JStr (if \<not> startswith entry_id ''cron_'' then ''cron_'' @ entry_id else entry_id)),
           (''name'', obj_get entry ''name'' (JStr ''Unnamed task'')),
           (''schedule'', obj_get entry ''cron'' (obj_get entry ''schedule'' (JStr ''''))),
           (''prompt'', obj_get entry ''command'' (obj_get entry ''prompt'' (JStr ''''))),
           (''enabled'', obj_get entry ''enabled'' (JBool True)),
           (''last_run'', obj_get entry ''last_run'' JNull),
           (''created_at'', obj_get entry ''created_at'' (JStr now)),
           (''reply_to'', obj_get entry ''reply_to'' (JStr ''''))]"

text \<open>
  The loop over the legacy files. \<open>now f\<close> is the time stamp taken while the file \<open>f\<close> is
  handled. The result holds the directory and the job list at the end, and the exception
  that ends the loop early, if any.
\<close>

fun migrate_loop :: "(string \<Rightarrow> string) \<Rightarrow> json list \<Rightarrow> (string \<times> file_content) list \<Rightarrow> cron_dir \<times> json list \<Rightarrow> (cron_dir \<times> json list) \<times> py_error option" where
  "migrate_loop now existing_ids [] st = (st, None)"
| "migrate_loop now existing_ids ((f, content) # fs) (dir, jobs) =
     (case content of
        Unparsable \<Rightarrow> migrate_loop now existing_ids fs (dir, jobs)
      | Json entry \<Rightarrow>
          (case entry of
             JObj d \<Rightarrow>
               (let entry_id = obj_get d ''id'' (JStr '''') in
                if \<not> hashable entry_id then ((dir, jobs), Some TypeError)
                else if list_ex (py_eq entry_id) existing_ids
                  then migrate_loop now existing_ids fs (AList.delete f dir, jobs)
                else
                  (case entry_id of
                     JStr s \<Rightarrow>
                       migrate_loop now existing_ids fs
                         (AList.delete f dir, jobs @ [migrated_entry s d (now f)])
                   | _ \<Rightarrow> ((dir, jobs), Some AttributeError)))
           | _ \<Rightarrow> ((dir, jobs), Some AttributeError)))"

definition migrate_individual_files :: "(string \<Rightarrow> string) \<Rightarrow> cron_dir \<Rightarrow> cron_dir \<times> py_error option" where
  "migrate_individual_files now dir =
     (let individual_files =
            filter (\<lambda>(f, content). endswith f ''.json'' \<and> f \<noteq> ''jobs.json'' \<and> \<not> endswith f ''.tmp'') dir
      in
      if individual_files = [] then (dir, None)
      else
        (let jobs = load_jobs_file dir in
         case existing_ids_of jobs of
           Inl e \<Rightarrow> (dir, Some e)
         | Inr existing_ids \<Rightarrow>
             (case migrate_loop now existing_ids individual_files (dir, jobs) of
                ((dir', jobs'), Some e) \<Rightarrow> (dir', Some e)
              | ((dir', jobs'), None) \<Rightarrow> (save_jobs_file dir' jobs', None))))"

definition is_migrated :: "json \<Rightarrow> bool" where
  \<comment> \<open>an entry of the new schema whose id starts with \<open>cron_\<close>\<close>
  "is_migrated j \<longleftrightarrow>
     (case j of
        JObj d \<Rightarrow>
          map fst d = [''id'', ''name'', ''schedule'', ''prompt'', ''enabled'', ''last_run'',
                       ''created_at'', ''reply_to''] \<and>
          (case map_of d ''id'' of Some (JStr i) \<Rightarrow> startswith i ''cron_'' | _ \<Rightarrow> False)
      | _ \<Rightarrow> False)"

subsection \<open>An example directory\<close>

definition legacy_dir :: cron_dir where
  \<comment> \<open>one job in \<open>jobs.json\<close> and one legacy file\<close>
  "legacy_dir =
     [(''jobs.json'',
         Json (JArr [JObj [(''id'', JStr ''cron_1a2b3c4d''), (''name'', JStr ''Old''),
                           (''schedule'', JStr ''0 9 * * *''), (''prompt'', JStr ''hello''),
                           (''enabled'', JBool True), (''last_run'', JNull),
                           (''created_at'', JStr ''2025-01-01T00:00:00+00:00''),
                           (''reply_to'', JStr '''')]])),
      (''abc.json'',
         Json (JObj [(''id'', JStr ''abc''), (''name'', JStr ''Legacy''),
                     (''cron'', JStr ''*/5 * * * *''), (''command'', JStr ''ping'')]))]"

definition legacy_now :: "string \<Rightarrow> string" where
  "legacy_now f = ''2026-01-01T00:00:00+00:00''"

section \<open>The matcher returns the first match its continuation accepts\<close>

lemma first_some_last [simp]: "(case x of None \<Rightarrow> first_some k [] | Some r \<Rightarrow> Some r) = x"
  by (simp split: option.splits)

lemma first_some_append:
  "first_some k (xs @ ys) = (case first_some k xs of Some r \<Rightarrow> Some r | None \<Rightarrow> first_some k ys)"
  by (induction xs) (auto split: option.splits)

lemma first_some_concat_map:
  "first_some k (concat (map f xs)) = first_some (\<lambda>x. first_some k (f x)) xs"
  by (induction xs) (auto simp: first_some_append split: option.splits)

lemma first_some_map: "first_some k (map f xs) = first_some (\<lambda>x. k (f x)) xs"
  by (induction xs) (auto split: option.splits)

lemma rx_star_all: "rx_star ic a k p g s = first_some k (star_all ic a p g s)"
  by (induction s arbitrary: p) (auto simp: first_some_append split: option.splits)

lemma rx_rep_all: "rx_rep ic a lo hi k p g s = first_some k (rep_all ic a lo hi p g s)"
  by (induction s arbitrary: p lo hi) (auto simp: first_some_append split: option.splits)

lemma rx_cat_all:
  assumes "\<And>m f. (m, f) \<in> set (zip ms fs) \<Longrightarrow> (\<forall>k st. m k st = first_some k (f st))"
    and "length ms = length fs"
  shows "rx_cat ms k st = first_some k (cat_all fs st)"
  using assms
proof (induction ms arbitrary: fs k st)
  case Nil
  then show ?case by (simp split: option.splits)
next
  case (Cons m ms)
  then obtain f fs' where fs: "fs = f # fs'" by (cases fs) auto
  have "(m, f) \<in> set (zip (m # ms) fs)" using fs by simp
  then have h: "\<forall>k st. m k st = first_some k (f st)" by (rule Cons.prems(1))
  have t: "rx_cat ms k st = first_some k (cat_all fs' st)" for k st
    using Cons.IH [of fs' k st] Cons.prems fs by simp
  have "rx_cat (m # ms) k st = first_some (rx_cat ms k) (f st)" using h by (cases st) auto
  also have "rx_cat ms k = (\<lambda>x. first_some k (cat_all fs' x))" using t by (intro ext)
  finally show ?case using fs by (simp add: first_some_concat_map)
qed

lemma rx_alt_all:
  assumes "\<And>m f. (m, f) \<in> set (zip ms fs) \<Longrightarrow> (\<forall>k st. m k st = first_some k (f st))"
    and "length ms = length fs"
  shows "rx_alt ms k st = first_some k (concat (map (\<lambda>f. f st) fs))"
  using assms
proof (induction ms arbitrary: fs)
  case Nil
  then show ?case by simp
next
  case (Cons m ms)
  then obtain f fs' where fs: "fs = f # fs'" by (cases fs) auto
  have "(m, f) \<in> set (zip (m # ms) fs)" using fs by simp
  then have "\<forall>k st. m k st = first_some k (f st)" by (rule Cons.prems(1))
  then have h: "m k st = first_some k (f st)" by blast
  have "rx_alt ms k st = first_some k (concat (map (\<lambda>f. f st) fs'))"
    using Cons.IH [of fs'] Cons.prems fs by simp
  with h fs show ?case by (simp add: first_some_append split: option.splits)
qed

lemma zip_map_same:
  "(m, f) \<in> set (zip (map F rs) (map G rs)) \<Longrightarrow> \<exists>r \<in> set rs. m = F r \<and> f = G r"
  by (induction rs) auto

lemma rx_m_all: "rx_m ic r (k :: mstate \<Rightarrow> 'a option) st = first_some k (rx_all ic r st)"
proof (induction r arbitrary: k st)
  case (Atom a)
  then show ?case by (auto split: prod.splits list.splits option.splits)
next
  case (Cat rs)
  have "rx_cat (map (rx_m ic) rs) k st = first_some k (cat_all (map (rx_all ic) rs) st)"
  proof (rule rx_cat_all)
    fix m :: "(mstate \<Rightarrow> 'a option) \<Rightarrow> mstate \<Rightarrow> 'a option" and f
    assume "(m, f) \<in> set (zip (map (rx_m ic) rs) (map (rx_all ic) rs))"
    then obtain r where r: "r \<in> set rs" "m = rx_m ic r" "f = rx_all ic r"
      using zip_map_same [of m f "rx_m ic" rs "rx_all ic"] by blast
    show "\<forall>k st. m k st = first_some k (f st)"
    proof (intro allI)
      fix k st
      show "m k st = first_some k (f st)" unfolding r(2,3) by (rule Cat [OF r(1)])
    qed
  qed simp
  then show ?case by simp
next
  case (Alt rs)
  have "rx_alt (map (rx_m ic) rs) k st = first_some k (concat (map (\<lambda>f. f st) (map (rx_all ic) rs)))"
  proof (rule rx_alt_all)
    fix m :: "(mstate \<Rightarrow> 'a option) \<Rightarrow> mstate \<Rightarrow> 'a option" and f
    assume "(m, f) \<in> set (zip (map (rx_m ic) rs) (map (rx_all ic) rs))"
    then obtain r where r: "r \<in> set rs" "m = rx_m ic r" "f = rx_all ic r"
      using zip_map_same [of m f "rx_m ic" rs "rx_all ic"] by blast
    show "\<forall>k st. m k st = first_some k (f st)"
    proof (intro allI)
      fix k st
      show "m k st = first_some k (f st)" unfolding r(2,3) by (rule Alt [OF r(1)])
    qed
  qed simp
  then show ?case by simp
next
  case (Opt r)
  then show ?case by (simp add: first_some_append split: option.splits)
next
  case (Star a)
  then show ?case by (simp add: rx_star_all split: prod.splits)
next
  case (Plus a)
  then show ?case by (auto simp: rx_star_all split: prod.splits list.splits option.splits)
next
  case (Rep a lo hi)
  then show ?case by (simp add: rx_rep_all split: prod.splits)
next
  case (Grp n r)
  obtain p s g where st: "st = (p, s, g)" by (cases st)
  show ?case unfolding st using Grp [of _ "(p, s, g)"]
    by (simp add: first_some_map case_prod_unfold)
next
  case WordB
  then show ?case by (simp split: prod.splits)
next
  case Bol
  then show ?case by (simp split: prod.splits)
next
  case Eol
  then show ?case by (simp split: prod.splits)
qed


lemma first_some_SomeD: "first_some k xs = Some r \<Longrightarrow> \<exists>x \<in> set xs. k x = Some r"
  by (induction xs) (auto split: option.splits)

lemma ext_refl: "later G st st"
  by (simp add: later_def)

lemma ext_trans: "later G1 a b \<Longrightarrow> later G2 b c \<Longrightarrow> later (G1 \<union> G2) a c"
  by (auto simp: later_def)

lemma ext_mono: "later G a b \<Longrightarrow> G \<subseteq> G' \<Longrightarrow> later G' a b"
  by (auto simp: later_def)

lemma star_all_ext: "st' \<in> set (star_all ic a p g s) \<Longrightarrow> later {} (q, s, g) st'"
proof (induction s arbitrary: p q)
  case Nil
  then show ?case by (simp add: later_def)
next
  case (Cons c cs)
  show ?case
  proof (cases "st' = (p, c # cs, g)")
    case True
    then show ?thesis by (simp add: later_def)
  next
    case False
    with Cons.prems have "st' \<in> set (star_all ic a (Some c) g cs)" by (auto split: if_splits)
    from Cons.IH [OF this, of q] show ?thesis by (auto simp: later_def)
  qed
qed

lemma rep_all_ext: "st' \<in> set (rep_all ic a lo hi p g s) \<Longrightarrow> later {} (q, s, g) st'"
proof (induction s arbitrary: p q lo hi)
  case Nil
  then show ?case by (simp add: later_def split: if_splits)
next
  case (Cons c cs)
  show ?case
  proof (cases "st' = (p, c # cs, g)")
    case True
    then show ?thesis by (simp add: later_def)
  next
    case False
    with Cons.prems have "st' \<in> set (rep_all ic a (lo - 1) (hi - 1) (Some c) g cs)" by (auto split: if_splits)
    from Cons.IH [OF this, of q] show ?thesis by (auto simp: later_def)
  qed
qed

lemma cat_all_ext:
  assumes "st' \<in> set (cat_all (map (rx_all ic) rs) st)"
    and "\<And>r st st'. r \<in> set rs \<Longrightarrow> st' \<in> set (rx_all ic r st) \<Longrightarrow> later (grps r) st st'"
  shows "later (\<Union> (set (map grps rs))) st st'"
  using assms
proof (induction rs arbitrary: st)
  case Nil
  then show ?case by (simp add: ext_refl)
next
  case (Cons r rs)
  from Cons.prems(1) obtain st1 where
    1: "st1 \<in> set (rx_all ic r st)" and 2: "st' \<in> set (cat_all (map (rx_all ic) rs) st1)"
    by auto
  have a: "later (grps r) st st1" using Cons.prems(2) 1 by simp
  have b: "later (\<Union> (set (map grps rs))) st1 st'"
    using Cons.IH [OF 2] Cons.prems(2) by simp
  from ext_trans [OF a b] show ?case by simp
qed

lemma rx_all_ext: "st' \<in> set (rx_all ic r st) \<Longrightarrow> later (grps r) st st'"
proof (induction r arbitrary: st st')
  case (Atom a)
  then show ?case by (auto simp: later_def split: prod.splits list.splits if_splits)
next
  case (Cat rs)
  have "later (\<Union> (set (map grps rs))) st st'"
    by (rule cat_all_ext [of st' ic rs st]) (use Cat in auto)
  then show ?case by simp
next
  case (Alt rs)
  from Alt.prems obtain r where r: "r \<in> set rs" "st' \<in> set (rx_all ic r st)" by auto
  from Alt.IH [OF this] have "later (grps r) st st'" .
  then show ?case by (rule ext_mono) (use r in auto)
next
  case (Opt r)
  from Opt.prems have "st' \<in> set (rx_all ic r st) \<or> st' = st" by auto
  then show ?case
  proof
    assume "st' \<in> set (rx_all ic r st)"
    from Opt.IH [OF this] show ?thesis by simp
  next
    assume "st' = st"
    then show ?thesis by (simp add: ext_refl)
  qed
next
  case (Star a)
  then show ?case by (auto simp: star_all_ext split: prod.splits)
next
  case (Plus a)
  obtain p s g where st: "st = (p, s, g)" by (cases st)
  with Plus obtain c cs where s: "s = c # cs" "cls_match ic a c" "st' \<in> set (star_all ic a (Some c) g cs)"
    by (cases s) (auto split: if_splits)
  from star_all_ext [OF s(3), of p] show ?case unfolding st s(1) by (auto simp: later_def)
next
  case (Rep a lo hi)
  then show ?case by (auto simp: rep_all_ext split: prod.splits)
next
  case (Grp n r)
  obtain p s g where st: "st = (p, s, g)" by (cases st)
  with Grp.prems obtain p' s' g' where
    1: "(p', s', g') \<in> set (rx_all ic r (p, s, g))"
    and 2: "st' = (p', s', (n, take (length s - length s') s) # g')"
    by auto
  from Grp.IH [OF 1] show ?case unfolding st 2 by (auto simp: later_def)
next
  case WordB
  then show ?case by (auto simp: ext_refl split: prod.splits if_splits)
next
  case Bol
  then show ?case by (auto simp: ext_refl split: prod.splits if_splits)
next
  case Eol
  then show ?case by (auto simp: ext_refl split: prod.splits if_splits)
qed

section \<open>The filter on the commands of the bypass test\<close>

lemma reject_rm_separate_flags: "is_dangerous 0 ''rm -r -f /'' \<noteq> None"
  by code_simp

lemma reject_rm_long_flags: "is_dangerous 0 ''rm --recursive --force /'' \<noteq> None"
  by code_simp

lemma reject_python_escape:
  \<open>is_dangerous 0 ''python3 -c "import os; os.system('rm -rf /')"'' \<noteq> None\<close>
  by code_simp

lemma reject_sudo_rm: "is_dangerous 0 ''sudo rm -rf /'' \<noteq> None"
  by code_simp

lemma reject_chained_rm: "is_dangerous 0 ''echo ok; rm -rf /'' \<noteq> None"
  by code_simp

lemma reject_full_path_rm: "is_dangerous 0 ''/usr/bin/rm -rf /'' \<noteq> None"
  by code_simp

lemma accept_rm_build: "is_dangerous 0 ''rm -rf ./build'' = None"
  by code_simp

lemma accept_ls: "is_dangerous 0 ''ls -la /tmp'' = None"
  by code_simp

lemma accept_pytest: "is_dangerous 0 ''python3 -m pytest tests/'' = None"
  by code_simp

text \<open>
  Claim C1. The filter, called as the tool calls it (depth 0), rejects \<open>rm -r -f /\<close>,
  \<open>rm --recursive --force /\<close>, the \<open>python3 -c\<close> command that calls \<open>os.system\<close> with
  \<open>rm -rf /\<close>, \<open>sudo rm -rf /\<close>, \<open>echo ok; rm -rf /\<close> and \<open>/usr/bin/rm -rf /\<close>: it returns a
  reason. It accepts \<open>rm -rf ./build\<close>, \<open>ls -la /tmp\<close> and \<open>python3 -m pytest tests/\<close>: it
  returns none.
\<close>

theorem shell_filter_bypass_coverage:
  \<open>is_dangerous 0 ''rm -r -f /'' \<noteq> None \<and>
   is_dangerous 0 ''rm --recursive --force /'' \<noteq> None \<and>
   is_dangerous 0 ''python3 -c "import os; os.system('rm -rf /')"'' \<noteq> None \<and>
   is_dangerous 0 ''sudo rm -rf /'' \<noteq> None \<and>
   is_dangerous 0 ''echo ok; rm -rf /'' \<noteq> None \<and>
   is_dangerous 0 ''/usr/bin/rm -rf /'' \<noteq> None \<and>
   is_dangerous 0 ''rm -rf ./build'' = None \<and>
   is_dangerous 0 ''ls -la /tmp'' = None \<and>
   is_dangerous 0 ''python3 -m pytest tests/'' = None\<close>
  using reject_rm_separate_flags reject_rm_long_flags reject_python_escape reject_sudo_rm
    reject_chained_rm reject_full_path_rm accept_rm_build accept_ls accept_pytest
  by blast

section \<open>The loop over the sub-commands\<close>

lemma first_danger_Some: "s \<in> set ss \<Longrightarrow> chk s \<noteq> None \<Longrightarrow> first_danger chk ss \<noteq> None"
  by (induction ss) (auto split: option.splits)

lemma first_danger_None_iff: "first_danger chk ss = None \<longleftrightarrow> (\<forall>s \<in> set ss. chk s = None)"
  by (induction ss) (auto split: option.splits)

section \<open>Sub-commands of a chain\<close>

lemma split_loop_branch:
  "split_loop s d cur (ch # rest) =
     (case branch_of s d ch rest of
        BEsc \<Rightarrow> split_loop s d (hd rest # ch # cur) (tl rest)
      | BSingle \<Rightarrow> split_loop (\<not> s) d (ch # cur) rest
      | BDouble \<Rightarrow> split_loop s (\<not> d) (ch # cur) rest
      | BAnd \<Rightarrow> emit_part cur @ split_loop s d [] (tl rest)
      | BOr \<Rightarrow> emit_part cur @ split_loop s d [] (tl rest)
      | BSemi \<Rightarrow> emit_part cur @ split_loop s d [] rest
      | BOther \<Rightarrow> split_loop s d (ch # cur) rest)"
  unfolding branch_of_def split_loop.simps(2) [of s d cur ch rest]
  by (simp only: if_distrib [of "case_branch _ _ _ _ _ _ _"] branch.case cong: if_cong)

lemma no_sep_branch:
  "no_sep s d (ch # rest) =
     (case branch_of s d ch rest of
        BEsc \<Rightarrow> no_sep s d (tl rest)
      | BSingle \<Rightarrow> no_sep (\<not> s) d rest
      | BDouble \<Rightarrow> no_sep s (\<not> d) rest
      | BAnd \<Rightarrow> False
      | BOr \<Rightarrow> False
      | BSemi \<Rightarrow> False
      | BOther \<Rightarrow> no_sep s d rest)"
  unfolding branch_of_def no_sep.simps(2) [of s d ch rest]
  by (simp only: if_distrib [of "case_branch _ _ _ _ _ _ _"] branch.case cong: if_cong)

lemma branch_esc_rest: "branch_of s d ch rest = BEsc \<Longrightarrow> rest = hd rest # tl rest"
  by (cases rest) (auto simp: branch_of_def split: if_splits)

lemma branch_sep_state: "branch_of s d ch rest \<in> {BAnd, BOr, BSemi} \<Longrightarrow> \<not> s \<and> \<not> d"
  by (auto simp: branch_of_def split: if_splits)

lemma branch_and_or_rest:
  "branch_of s d ch rest \<in> {BAnd, BOr} \<Longrightarrow> rest = hd rest # tl rest"
  by (cases rest) (auto simp: branch_of_def split: if_splits)

lemma split_loop_no_sep:
  "no_sep s d w \<Longrightarrow> split_loop s d cur w = emit_part (rev w @ cur)"
proof (induction w arbitrary: s d cur rule: length_induct)
  case (1 w)
  note IH = "1.IH" [rule_format]
  show ?case
  proof (cases w)
    case Nil
    then show ?thesis by simp
  next
    case (Cons ch rest)
    show ?thesis
    proof (cases "branch_of s d ch rest")
      case BEsc
      note r = branch_esc_rest [OF BEsc]
      from "1.prems" Cons BEsc have "no_sep s d (tl rest)" by (simp add: no_sep_branch)
      moreover have "length (tl rest) < length w" using Cons by simp
      ultimately have "split_loop s d (hd rest # ch # cur) (tl rest) = emit_part (rev (tl rest) @ hd rest # ch # cur)"
        using IH by blast
      moreover have "rev w = rev (tl rest) @ [hd rest, ch]" using Cons r by (metis append.assoc append_Cons append_Nil rev.simps(2))
      ultimately show ?thesis using Cons BEsc by (simp add: split_loop_branch)
    next
      case BSingle
      from "1.prems" Cons BSingle have "no_sep (\<not> s) d rest" by (simp add: no_sep_branch)
      then have "split_loop (\<not> s) d (ch # cur) rest = emit_part (rev rest @ ch # cur)"
        using IH Cons by simp
      then show ?thesis using Cons BSingle by (simp add: split_loop_branch)
    next
      case BDouble
      from "1.prems" Cons BDouble have "no_sep s (\<not> d) rest" by (simp add: no_sep_branch)
      then have "split_loop s (\<not> d) (ch # cur) rest = emit_part (rev rest @ ch # cur)"
        using IH Cons by simp
      then show ?thesis using Cons BDouble by (simp add: split_loop_branch)
    next
      case BAnd
      with "1.prems" Cons show ?thesis by (simp add: no_sep_branch)
    next
      case BOr
      with "1.prems" Cons show ?thesis by (simp add: no_sep_branch)
    next
      case BSemi
      with "1.prems" Cons show ?thesis by (simp add: no_sep_branch)
    next
      case BOther
      from "1.prems" Cons BOther have "no_sep s d rest" by (simp add: no_sep_branch)
      then have "split_loop s d (ch # cur) rest = emit_part (rev rest @ ch # cur)"
        using IH Cons by simp
      then show ?thesis using Cons BOther by (simp add: split_loop_branch)
    qed
  qed
qed

lemma branch_of_take1: "branch_of s d ch rest = branch_of s d ch (take 1 rest)"
  by (cases rest) (simp_all add: branch_of_def)

lemma branch_of_prefix:
  assumes "branch_of s d ch rest = b" and "b \<in> {BSingle, BDouble, BOther}" and "rest = x @ v"
  shows "branch_of s d ch x = b"
proof (cases x)
  case Nil
  with assms(1,2) show ?thesis by (auto simp: branch_of_def split: if_splits)
next
  case (Cons c x')
  with assms(3) have "take 1 rest = take 1 x" by simp
  with assms(1) show ?thesis using branch_of_take1 by metis
qed

lemma no_sep_prefix: "no_sep s d (u @ v) \<Longrightarrow> no_sep s d u"
proof (induction u arbitrary: s d rule: length_induct)
  case (1 u)
  note IH = "1.IH" [rule_format]
  show ?case
  proof (cases u)
    case Nil
    then show ?thesis by simp
  next
    case (Cons ch rest)
    then have full: "no_sep s d (ch # rest @ v)" using "1.prems" by simp
    show ?thesis
    proof (cases "branch_of s d ch (rest @ v)")
      case BEsc
      show ?thesis
      proof (cases rest)
        case Nil
        have "branch_of s d ch [] \<in> {BSingle, BDouble, BOther}"
          using BEsc by (auto simp: branch_of_def split: if_splits)
        then show ?thesis using Cons Nil by (auto simp: no_sep_branch)
      next
        case (Cons c2 r2)
        then have "take 1 (rest @ v) = take 1 rest" by simp
        with BEsc have b: "branch_of s d ch rest = BEsc" using branch_of_take1 by metis
        from full BEsc Cons have "no_sep s d (r2 @ v)" by (simp add: no_sep_branch)
        then have "no_sep s d r2" using IH [of r2] Cons \<open>u = ch # rest\<close> by simp
        with b Cons \<open>u = ch # rest\<close> show ?thesis by (simp add: no_sep_branch)
      qed
    next
      case BSingle
      then have b: "branch_of s d ch rest = BSingle" using branch_of_prefix by blast
      from full BSingle have "no_sep (\<not> s) d (rest @ v)" by (simp add: no_sep_branch)
      then have "no_sep (\<not> s) d rest" using IH [of rest] Cons by simp
      with b Cons show ?thesis by (simp add: no_sep_branch)
    next
      case BDouble
      then have b: "branch_of s d ch rest = BDouble" using branch_of_prefix by blast
      from full BDouble have "no_sep s (\<not> d) (rest @ v)" by (simp add: no_sep_branch)
      then have "no_sep s (\<not> d) rest" using IH [of rest] Cons by simp
      with b Cons show ?thesis by (simp add: no_sep_branch)
    next
      case BAnd
      with full show ?thesis by (simp add: no_sep_branch)
    next
      case BOr
      with full show ?thesis by (simp add: no_sep_branch)
    next
      case BSemi
      with full show ?thesis by (simp add: no_sep_branch)
    next
      case BOther
      then have b: "branch_of s d ch rest = BOther" using branch_of_prefix by blast
      from full BOther have "no_sep s d (rest @ v)" by (simp add: no_sep_branch)
      then have "no_sep s d rest" using IH [of rest] Cons by simp
      with b Cons show ?thesis by (simp add: no_sep_branch)
    qed
  qed
qed

lemma push_push: "push a (push b xs) = push (a @ b) xs"
  by (cases xs) auto

lemma push_Nil: "push [] xs = xs"
  by (cases xs) auto

lemma segs_nonempty: "segs s d w \<noteq> []"
proof (induction w arbitrary: s d rule: length_induct)
  case (1 w)
  note IH = "1.IH" [rule_format]
  show ?case
  proof (cases w)
    case Nil
    then show ?thesis by simp
  next
    case (Cons ch rest)
    have a: "segs s' d' rest \<noteq> []" for s' d' using IH [of rest] Cons by simp
    have b: "segs s' d' (tl rest) \<noteq> []" for s' d' using IH [of "tl rest"] Cons by simp
    have p: "xs \<noteq> [] \<Longrightarrow> push u xs \<noteq> []" for u xs by (cases xs) auto
    show ?thesis using Cons a b p by (cases "branch_of s d ch rest") (simp_all add: segs.simps(2))
  qed
qed

lemma emit_part_raw: "emit_part c = emit_raw (rev c)"
  by (simp add: emit_raw_def)

lemma concat_emit_push:
  "xs \<noteq> [] \<Longrightarrow> concat (map emit_raw (push a (u # xs))) = emit_raw (a @ u) @ concat (map emit_raw xs)"
  by simp

lemma split_loop_segs:
  "split_loop s d cur w = concat (map emit_raw (push (rev cur) (segs s d w)))"
proof (induction w arbitrary: s d cur rule: length_induct)
  case (1 w)
  note IH = "1.IH" [rule_format]
  show ?case
  proof (cases w)
    case Nil
    then show ?thesis by (simp add: emit_raw_def)
  next
    case (Cons ch rest)
    have a: "split_loop s' d' cur' rest = concat (map emit_raw (push (rev cur') (segs s' d' rest)))" for s' d' cur'
      using IH [of rest] Cons by simp
    have b: "split_loop s' d' cur' (tl rest) = concat (map emit_raw (push (rev cur') (segs s' d' (tl rest))))" for s' d' cur'
      using IH [of "tl rest"] Cons by simp
    show ?thesis
      using Cons
      by (cases "branch_of s d ch rest")
         (simp_all add: split_loop_branch segs.simps(2) a b push_push push_Nil emit_part_raw)
  qed
qed

lemma segs_clean:
  "no_sep s d (hd (segs s d w)) \<and> (\<exists>v. w = hd (segs s d w) @ v) \<and>
   (\<forall>u \<in> set (tl (segs s d w)). no_sep False False u)"
proof (induction w arbitrary: s d rule: length_induct)
  case (1 w)
  note IH = "1.IH" [rule_format]
  show ?case
  proof (cases w)
    case Nil
    then show ?thesis by simp
  next
    case (Cons ch rest)
    have keep: "no_sep s d (ch # x)"
      if b: "branch_of s d ch rest = b" "b \<in> {BSingle, BDouble, BOther}"
        and x: "rest = x @ v"
        and n: "no_sep (if b = BSingle then \<not> s else s) (if b = BDouble then \<not> d else d) x"
      for b x v
    proof -
      have "branch_of s d ch x = b" using branch_of_prefix [OF b x] .
      with b(2) n show ?thesis by (auto simp: no_sep_branch)
    qed
    show ?thesis
    proof (cases "branch_of s d ch rest")
      case BEsc
      note r = branch_esc_rest [OF BEsc]
      obtain x xs where sg: "segs s d (tl rest) = x # xs"
        using segs_nonempty by (cases "segs s d (tl rest)") auto
      from IH [of "tl rest" s d] Cons sg
      have i: "no_sep s d x" "\<exists>v. tl rest = x @ v" "\<forall>u \<in> set xs. no_sep False False u" by auto
      have "branch_of s d ch (hd rest # x) = BEsc"
        using BEsc r branch_of_take1 [of s d ch rest] branch_of_take1 [of s d ch "hd rest # x"]
        by (metis take_Suc_Cons One_nat_def take0)
      then have "no_sep s d (ch # hd rest # x)" using i(1) by (simp add: no_sep_branch)
      moreover have "\<exists>v. w = (ch # hd rest # x) @ v" using i(2) Cons r by (metis append_Cons)
      ultimately show ?thesis using Cons BEsc sg i(3) by (simp add: segs.simps(2))
    next
      case BSingle
      obtain x xs where sg: "segs (\<not> s) d rest = x # xs"
        using segs_nonempty by (cases "segs (\<not> s) d rest") auto
      from IH [of rest "\<not> s" d] Cons sg
      have i: "no_sep (\<not> s) d x" "\<exists>v. rest = x @ v" "\<forall>u \<in> set xs. no_sep False False u" by auto
      from i(2) obtain v where v: "rest = x @ v" by blast
      have "no_sep s d (ch # x)" using keep [OF BSingle _ v] i(1) by simp
      then show ?thesis using Cons BSingle sg i v by (simp add: segs.simps(2))
    next
      case BDouble
      obtain x xs where sg: "segs s (\<not> d) rest = x # xs"
        using segs_nonempty by (cases "segs s (\<not> d) rest") auto
      from IH [of rest s "\<not> d"] Cons sg
      have i: "no_sep s (\<not> d) x" "\<exists>v. rest = x @ v" "\<forall>u \<in> set xs. no_sep False False u" by auto
      from i(2) obtain v where v: "rest = x @ v" by blast
      have "no_sep s d (ch # x)" using keep [OF BDouble _ v] i(1) by simp
      then show ?thesis using Cons BDouble sg i v by (simp add: segs.simps(2))
    next
      case BAnd
      then have st: "\<not> s \<and> \<not> d" using branch_sep_state by blast
      obtain x xs where sg: "segs s d (tl rest) = x # xs"
        using segs_nonempty by (cases "segs s d (tl rest)") auto
      from IH [of "tl rest" s d] Cons sg st
      have "\<forall>u \<in> set (x # xs). no_sep False False u" by auto
      then show ?thesis using Cons BAnd sg by (simp add: segs.simps(2))
    next
      case BOr
      then have st: "\<not> s \<and> \<not> d" using branch_sep_state by blast
      obtain x xs where sg: "segs s d (tl rest) = x # xs"
        using segs_nonempty by (cases "segs s d (tl rest)") auto
      from IH [of "tl rest" s d] Cons sg st
      have "\<forall>u \<in> set (x # xs). no_sep False False u" by auto
      then show ?thesis using Cons BOr sg by (simp add: segs.simps(2))
    next
      case BSemi
      then have st: "\<not> s \<and> \<not> d" using branch_sep_state by blast
      obtain x xs where sg: "segs s d rest = x # xs"
        using segs_nonempty by (cases "segs s d rest") auto
      from IH [of rest s d] Cons sg st
      have "\<forall>u \<in> set (x # xs). no_sep False False u" by auto
      then show ?thesis using Cons BSemi sg by (simp add: segs.simps(2))
    next
      case BOther
      obtain x xs where sg: "segs s d rest = x # xs"
        using segs_nonempty by (cases "segs s d rest") auto
      from IH [of rest s d] Cons sg
      have i: "no_sep s d x" "\<exists>v. rest = x @ v" "\<forall>u \<in> set xs. no_sep False False u" by auto
      from i(2) obtain v where v: "rest = x @ v" by blast
      have "no_sep s d (ch # x)" using keep [OF BOther _ v] i(1) by simp
      then show ?thesis using Cons BOther sg i v by (simp add: segs.simps(2))
    qed
  qed
qed

lemma rstrip_prefix: "\<exists>v. u = rstrip u @ v"
proof -
  have "rev u = takeWhile py_isspace (rev u) @ dropWhile py_isspace (rev u)" by simp
  then have "u = rev (dropWhile py_isspace (rev u)) @ rev (takeWhile py_isspace (rev u))"
    by (metis rev_append rev_rev_ident)
  then show ?thesis unfolding rstrip_def by blast
qed

lemma no_sep_space: "py_isspace c \<Longrightarrow> no_sep False False (c # u) = no_sep False False u"
proof -
  assume "py_isspace c"
  then have "branch_of False False c u = BOther"
    by (cases u) (auto simp: py_isspace_def branch_of_def)
  then show ?thesis by (simp add: no_sep_branch)
qed

lemma no_sep_lstrip: "no_sep False False u \<Longrightarrow> no_sep False False (lstrip u)"
  unfolding lstrip_def by (induction u) (auto simp: no_sep_space)

lemma no_sep_rstrip: "no_sep s d u \<Longrightarrow> no_sep s d (rstrip u)"
  using rstrip_prefix [of u] no_sep_prefix by metis

lemma no_sep_strip: "no_sep False False u \<Longrightarrow> no_sep False False (strip u)"
  unfolding strip_def by (simp add: no_sep_lstrip no_sep_rstrip)

lemma lstrip_id: "s = [] \<or> \<not> py_isspace (hd s) \<Longrightarrow> lstrip s = s"
  unfolding lstrip_def by (cases s) auto

lemma rstrip_id: "s = [] \<or> \<not> py_isspace (last s) \<Longrightarrow> rstrip s = s"
  unfolding rstrip_def by (cases s rule: rev_cases) auto

lemma lstrip_hd: "lstrip s = [] \<or> \<not> py_isspace (hd (lstrip s))"
  unfolding lstrip_def using hd_dropWhile by blast

lemma rstrip_last: "rstrip s = [] \<or> \<not> py_isspace (last (rstrip s))"
proof (cases "rstrip s = []")
  case True
  then show ?thesis by simp
next
  case False
  then have ne: "dropWhile py_isspace (rev s) \<noteq> []" by (simp add: rstrip_def)
  then have "\<not> py_isspace (hd (dropWhile py_isspace (rev s)))" by (rule hd_dropWhile)
  moreover have "last (rstrip s) = hd (dropWhile py_isspace (rev s))"
    unfolding rstrip_def using ne by (simp add: last_rev)
  ultimately show ?thesis by simp
qed

lemma rstrip_hd: "rstrip s \<noteq> [] \<Longrightarrow> hd (rstrip s) = hd s"
proof -
  assume ne: "rstrip s \<noteq> []"
  obtain v where "s = rstrip s @ v" using rstrip_prefix by blast
  then have "hd s = hd (rstrip s @ v)" by simp
  also have "\<dots> = hd (rstrip s)" using ne by simp
  finally show ?thesis by simp
qed

lemma strip_idem: "strip (strip s) = strip s"
proof -
  let ?v = "lstrip s"
  let ?w = "rstrip ?v"
  have "?w = [] \<or> \<not> py_isspace (hd ?w)"
  proof (cases "?w = []")
    case True
    then show ?thesis by simp
  next
    case False
    then have "hd ?w = hd ?v" by (rule rstrip_hd)
    moreover from False have "?v \<noteq> []" by (auto simp: rstrip_def)
    ultimately show ?thesis using lstrip_hd [of s] by simp
  qed
  then have "lstrip ?w = ?w" by (rule lstrip_id)
  moreover have "rstrip ?w = ?w" using rstrip_last [of ?v] by (rule rstrip_id)
  ultimately show ?thesis by (simp add: strip_def)
qed

lemma split_parts_clean:
  assumes "p \<in> set (split_shell_commands c)"
  shows "p \<noteq> [] \<and> strip p = p \<and> no_sep False False p"
proof -
  from assms obtain u where u: "u \<in> set (segs False False c)" and p: "p \<in> set (emit_raw u)"
    by (auto simp: split_shell_commands_def split_loop_segs push_Nil)
  from p have pe: "p = strip u" "p \<noteq> []"
    by (auto simp: emit_raw_def emit_part_def Let_def split: if_splits)
  have "no_sep False False u"
    using u segs_clean [of False False c] segs_nonempty [of False False c]
    by (cases "segs False False c") auto
  with pe show ?thesis by (simp add: no_sep_strip strip_idem)
qed

lemma split_single:
  assumes "p \<in> set (split_shell_commands c)"
  shows "split_shell_commands p = [p]"
  using split_parts_clean [OF assms]
  by (simp add: split_shell_commands_def split_loop_no_sep emit_part_def)

lemma is_dangerous_top:
  "is_dangerous 0 command =
     (case first_danger structural_layers (split_shell_commands command) of
        Some r \<Rightarrow> Some r | None \<Rightarrow> regex_fallback command)"
proof -
  have "structural_layers = check_subcommand (\<lambda>code. is_dangerous (0 + 1) code)"
    by (rule ext) (simp add: structural_layers_def)
  then show ?thesis
    by (subst is_dangerous.simps) (simp add: MAX_CHECK_DEPTH_def)
qed

lemma fork_bomb_split:
  "split_shell_commands '':(){ :|:& };:'' = ['':(){ :|:& }'', '':'']"
  by code_simp

lemma fork_bomb_first_safe: "is_dangerous 0 '':(){ :|:& }'' = None"
  by code_simp

lemma fork_bomb_second_safe: "is_dangerous 0 '':'' = None"
  by code_simp

lemma fork_bomb_rejected: "is_dangerous 0 '':(){ :|:& };:'' \<noteq> None"
  by code_simp

text \<open>
  Claim C2 as stated fails. The fork bomb \<^verbatim>\<open>:(){ :|:& };:\<close> splits at its semicolon
  into two sub-commands; each of them, checked on its own, is judged safe, and the chain
  is rejected, because layer 4 searches its patterns in the full command string and the
  fork-bomb pattern spans the separator.
\<close>

theorem chain_iff_counterexample:
  "split_shell_commands '':(){ :|:& };:'' = ['':(){ :|:& }'', '':''] \<and>
   is_dangerous 0 '':(){ :|:& }'' = None \<and>
   is_dangerous 0 '':'' = None \<and>
   is_dangerous 0 '':(){ :|:& };:'' \<noteq> None"
  using fork_bomb_split fork_bomb_first_safe fork_bomb_second_safe fork_bomb_rejected
  by blast

text \<open>
  In the other direction, a pattern anchored at the end of the text can match a
  sub-command and not the chain it is part of.
\<close>

lemma chain_hides_anchored_pattern:
  "split_shell_commands ''chmod 777 /; echo ok'' = [''chmod 777 /'', ''echo ok''] \<and>
   is_dangerous 0 ''chmod 777 /'' \<noteq> None \<and>
   is_dangerous 0 ''chmod 777 /; echo ok'' = None"
  by code_simp

section \<open>A match inside a text is a match inside a longer text\<close>

lemma first_some_None_iff: "first_some (\<lambda>(p, s, g). Some g) xs = None \<longleftrightarrow> xs = []"
  by (cases xs) (auto split: prod.splits)

lemma star_all_zero: "(p, s, g) \<in> set (star_all ic a p g s)"
  by (cases s) auto

lemma star_all_embed:
  assumes "(p', s', g') \<in> set (star_all ic a p g s)" "wordness q = wordness p"
  shows "\<exists>q'. wordness q' = wordness p' \<and> (q', s' @ e, g') \<in> set (star_all ic a q g (s @ e))"
  using assms
proof (induction s arbitrary: p q)
  case Nil
  then have "p' = p" "s' = []" "g' = g" by simp_all
  with Nil.prems(2) star_all_zero [of q e g ic a] show ?case by auto
next
  case (Cons c cs)
  show ?case
  proof (cases "(p', s', g') = (p, c # cs, g)")
    case True
    with Cons.prems(2) star_all_zero [of q "(c # cs) @ e" g ic a] show ?thesis by auto
  next
    case False
    with Cons.prems(1) have m: "cls_match ic a c"
      and "(p', s', g') \<in> set (star_all ic a (Some c) g cs)"
      by (auto split: if_splits)
    from Cons.IH [OF this(2), of "Some c"] obtain q' where
      "wordness q' = wordness p'" "(q', s' @ e, g') \<in> set (star_all ic a (Some c) g (cs @ e))"
      by blast
    with m show ?thesis by auto
  qed
qed

lemma rep_all_embed:
  assumes "(p', s', g') \<in> set (rep_all ic a lo hi p g s)" "wordness q = wordness p"
  shows "\<exists>q'. wordness q' = wordness p' \<and> (q', s' @ e, g') \<in> set (rep_all ic a lo hi q g (s @ e))"
  using assms
proof (induction s arbitrary: p q lo hi)
  case Nil
  then have z: "lo = 0" "p' = p" "s' = []" "g' = g" by (simp_all split: if_splits)
  have "(q, e, g) \<in> set (rep_all ic a 0 hi q g e)" by (cases e) auto
  with z Nil.prems(2) show ?case by auto
next
  case (Cons c cs)
  show ?case
  proof (cases "lo = 0 \<and> (p', s', g') = (p, c # cs, g)")
    case True
    then have "(q, (c # cs) @ e, g) \<in> set (rep_all ic a lo hi q g ((c # cs) @ e))" by auto
    with True Cons.prems(2) show ?thesis by auto
  next
    case False
    with Cons.prems(1) have m: "hi > 0" "cls_match ic a c"
      and "(p', s', g') \<in> set (rep_all ic a (lo - 1) (hi - 1) (Some c) g cs)"
      by (auto split: if_splits)
    from Cons.IH [OF this(3), of "Some c"] obtain q' where
      "wordness q' = wordness p'"
      "(q', s' @ e, g') \<in> set (rep_all ic a (lo - 1) (hi - 1) (Some c) g (cs @ e))"
      by blast
    with m show ?thesis by auto
  qed
qed

lemma cat_all_embed:
  assumes "st' \<in> set (cat_all (map (rx_all ic) rs) st)" "emb e st st2"
    and "\<And>r st st' st2. r \<in> set rs \<Longrightarrow> st' \<in> set (rx_all ic r st) \<Longrightarrow> emb e st st2 \<Longrightarrow>
           \<exists>st2'. st2' \<in> set (rx_all ic r st2) \<and> emb e st' st2'"
  shows "\<exists>st2'. st2' \<in> set (cat_all (map (rx_all ic) rs) st2) \<and> emb e st' st2'"
  using assms
proof (induction rs arbitrary: st st2)
  case Nil
  then show ?case by simp
next
  case (Cons r rs)
  from Cons.prems(1) obtain st1 where
    1: "st1 \<in> set (rx_all ic r st)" and 2: "st' \<in> set (cat_all (map (rx_all ic) rs) st1)"
    by auto
  from Cons.prems(3) [OF _ 1 Cons.prems(2)] obtain st12 where
    3: "st12 \<in> set (rx_all ic r st2)" "emb e st1 st12"
    by auto
  from Cons.IH [OF 2 3(2)] Cons.prems(3) obtain st2' where
    4: "st2' \<in> set (cat_all (map (rx_all ic) rs) st12)" "emb e st' st2'"
    by (metis list.set_intros(2))
  from 3(1) 4(1) have "st2' \<in> set (cat_all (map (rx_all ic) (r # rs)) st2)" by auto
  with 4(2) show ?case by blast
qed

lemma rx_all_embed:
  assumes "st' \<in> set (rx_all ic r st)" "emb e st st2" "\<not> anchored r"
    and "e = [] \<or> \<not> is_word (hd e)"
  shows "\<exists>st2'. st2' \<in> set (rx_all ic r st2) \<and> emb e st' st2'"
  using assms(1-3)
proof (induction r arbitrary: st st' st2)
  case (Atom a)
  obtain p s g where st: "st = (p, s, g)" by (cases st)
  obtain q where st2: "st2 = (q, s @ e, g)" using Atom.prems(2) st by (cases st2) (auto simp: emb_def)
  from Atom.prems(1) st obtain c cs where "s = c # cs" "cls_match ic a c" "st' = (Some c, cs, g)"
    by (cases s) (auto split: if_splits)
  then show ?case unfolding st2 by (auto simp: emb_def)
next
  case (Cat rs)
  have "\<exists>st2'. st2' \<in> set (cat_all (map (rx_all ic) rs) st2) \<and> emb e st' st2'"
  proof (rule cat_all_embed [of st' ic rs st e st2])
    show "st' \<in> set (cat_all (map (rx_all ic) rs) st)" using Cat.prems(1) by simp
    show "emb e st st2" by (rule Cat.prems(2))
    fix r st st' st2
    assume r: "r \<in> set rs" and "st' \<in> set (rx_all ic r st)" "emb e st st2"
    moreover from r Cat.prems(3) have "\<not> anchored r" by (auto simp: list_ex_iff)
    ultimately show "\<exists>st2'. st2' \<in> set (rx_all ic r st2) \<and> emb e st' st2'"
      by (rule Cat.IH)
  qed
  then show ?case by simp
next
  case (Alt rs)
  from Alt.prems(1) obtain r where r: "r \<in> set rs" "st' \<in> set (rx_all ic r st)" by auto
  from r Alt.prems(3) have "\<not> anchored r" by (auto simp: list_ex_iff)
  from Alt.IH [OF r Alt.prems(2) this] obtain st2' where
    a: "st2' \<in> set (rx_all ic r st2)" "emb e st' st2'" by blast
  from r(1) a(1) have "st2' \<in> set (rx_all ic (Alt rs) st2)" by auto
  with a(2) show ?case by blast
next
  case (Opt r)
  from Opt.prems(1) have "st' \<in> set (rx_all ic r st) \<or> st' = st" by auto
  then show ?case
  proof
    assume "st' \<in> set (rx_all ic r st)"
    from Opt.IH [OF this Opt.prems(2)] Opt.prems(3) obtain st2' where
      a: "st2' \<in> set (rx_all ic r st2)" "emb e st' st2'" by auto
    from a(1) have "st2' \<in> set (rx_all ic (Opt r) st2)" by simp
    with a(2) show ?thesis by blast
  next
    assume "st' = st"
    moreover have "st2 \<in> set (rx_all ic (Opt r) st2)" by simp
    ultimately show ?thesis using Opt.prems(2) by blast
  qed
next
  case (Star a)
  obtain p s g where st: "st = (p, s, g)" by (cases st)
  obtain q where st2: "st2 = (q, s @ e, g)" and w: "wordness q = wordness p"
    using Star.prems(2) st by (cases st2) (auto simp: emb_def)
  obtain p' s' g' where st': "st' = (p', s', g')" by (cases st')
  from Star.prems(1) have "(p', s', g') \<in> set (star_all ic a p g s)" unfolding st st' by simp
  from star_all_embed [OF this w, of e] show ?case unfolding st2 st' by (auto simp: emb_def)
next
  case (Plus a)
  obtain p s g where st: "st = (p, s, g)" by (cases st)
  obtain q where st2: "st2 = (q, s @ e, g)"
    using Plus.prems(2) st by (cases st2) (auto simp: emb_def)
  obtain p' s' g' where st': "st' = (p', s', g')" by (cases st')
  from Plus.prems(1) obtain c cs where s: "s = c # cs" "cls_match ic a c"
    "(p', s', g') \<in> set (star_all ic a (Some c) g cs)"
    unfolding st st' by (cases s) (auto split: if_splits)
  from star_all_embed [OF s(3), of "Some c" e] s(1,2) show ?case
    unfolding st2 st' by (auto simp: emb_def)
next
  case (Rep a lo hi)
  obtain p s g where st: "st = (p, s, g)" by (cases st)
  obtain q where st2: "st2 = (q, s @ e, g)" and w: "wordness q = wordness p"
    using Rep.prems(2) st by (cases st2) (auto simp: emb_def)
  obtain p' s' g' where st': "st' = (p', s', g')" by (cases st')
  from Rep.prems(1) have "(p', s', g') \<in> set (rep_all ic a lo hi p g s)" unfolding st st' by simp
  from rep_all_embed [OF this w, of e] show ?case unfolding st2 st' by (auto simp: emb_def)
next
  case (Grp n r)
  obtain p s g where st: "st = (p, s, g)" by (cases st)
  obtain q where st2: "st2 = (q, s @ e, g)"
    using Grp.prems(2) st by (cases st2) (auto simp: emb_def)
  from Grp.prems(1) obtain p' s' g' where
    1: "(p', s', g') \<in> set (rx_all ic r (p, s, g))"
    and 2: "st' = (p', s', (n, take (length s - length s') s) # g')"
    unfolding st by auto
  from Grp.prems(3) have "\<not> anchored r" by simp
  from Grp.IH [OF 1 Grp.prems(2) [unfolded st] this] obtain q' where
    3: "(q', s' @ e, g') \<in> set (rx_all ic r (q, s @ e, g))" "wordness q' = wordness p'"
    unfolding st2 by (auto simp: emb_def)
  have t: "take (length (s @ e) - length (s' @ e)) (s @ e) = take (length s - length s') s"
    by simp
  have "(q', s' @ e, (n, take (length (s @ e) - length (s' @ e)) (s @ e)) # g')
          \<in> set (rx_all ic (Grp n r) (q, s @ e, g))"
    using 3(1) by (auto intro!: image_eqI [where x = "(q', s' @ e, g')"])
  then have "(q', s' @ e, (n, take (length s - length s') s) # g') \<in> set (rx_all ic (Grp n r) st2)"
    unfolding t st2 .
  moreover have "emb e st' (q', s' @ e, (n, take (length s - length s') s) # g')"
    unfolding 2 using 3(2) by (simp add: emb_def)
  ultimately show ?case by blast
next
  case WordB
  obtain p s g where st: "st = (p, s, g)" by (cases st)
  obtain q where st2: "st2 = (q, s @ e, g)" and w: "wordness q = wordness p"
    using WordB.prems(2) st by (cases st2) (auto simp: emb_def)
  have n: "(case s @ e of [] \<Rightarrow> False | c # _ \<Rightarrow> is_word c) = (case s of [] \<Rightarrow> False | c # _ \<Rightarrow> is_word c)"
    using assms(4) by (cases s; cases e) auto
  from WordB.prems(1) have "st' = st"
    and "wordness p \<noteq> (case s of [] \<Rightarrow> False | c # _ \<Rightarrow> is_word c)"
    unfolding st by (auto simp: wordness_def split: if_splits)
  with w n have "st2 \<in> set (rx_all ic WordB st2)" unfolding st2 by (auto simp: wordness_def)
  with \<open>st' = st\<close> WordB.prems(2) show ?case by auto
next
  case Bol
  then show ?case by simp
next
  case Eol
  then show ?case by simp
qed

lemma before_Cons: "before p (c # u) = before (Some c) u"
  by (simp add: before_def)

lemma search_from_iff:
  "re_search_from ic r p s \<noteq> None \<longleftrightarrow>
   (\<exists>u v. s = u @ v \<and> rx_all ic r (before p u, v, []) \<noteq> [])"
proof (induction s arbitrary: p)
  case Nil
  show ?case by (simp add: rx_m_all first_some_None_iff before_def)
next
  case (Cons c cs)
  have "re_search_from ic r p (c # cs) \<noteq> None \<longleftrightarrow>
        rx_all ic r (p, c # cs, []) \<noteq> [] \<or> re_search_from ic r (Some c) cs \<noteq> None"
    by (auto simp: rx_m_all first_some_None_iff split: option.splits)
  also have "\<dots> \<longleftrightarrow> rx_all ic r (p, c # cs, []) \<noteq> [] \<or>
        (\<exists>u v. cs = u @ v \<and> rx_all ic r (before (Some c) u, v, []) \<noteq> [])"
    unfolding Cons.IH ..
  also have "\<dots> \<longleftrightarrow> (\<exists>u v. c # cs = u @ v \<and> rx_all ic r (before p u, v, []) \<noteq> [])"
  proof
    assume "rx_all ic r (p, c # cs, []) \<noteq> [] \<or>
        (\<exists>u v. cs = u @ v \<and> rx_all ic r (before (Some c) u, v, []) \<noteq> [])"
    then show "\<exists>u v. c # cs = u @ v \<and> rx_all ic r (before p u, v, []) \<noteq> []"
    proof
      assume "rx_all ic r (p, c # cs, []) \<noteq> []"
      then have "c # cs = [] @ (c # cs) \<and> rx_all ic r (before p [], c # cs, []) \<noteq> []"
        by (simp add: before_def)
      then show ?thesis by blast
    next
      assume "\<exists>u v. cs = u @ v \<and> rx_all ic r (before (Some c) u, v, []) \<noteq> []"
      then obtain u v where "cs = u @ v" "rx_all ic r (before (Some c) u, v, []) \<noteq> []" by blast
      then have "c # cs = (c # u) @ v \<and> rx_all ic r (before p (c # u), v, []) \<noteq> []"
        by (simp add: before_Cons)
      then show ?thesis by blast
    qed
  next
    assume "\<exists>u v. c # cs = u @ v \<and> rx_all ic r (before p u, v, []) \<noteq> []"
    then obtain u v where uv: "c # cs = u @ v" "rx_all ic r (before p u, v, []) \<noteq> []" by blast
    show "rx_all ic r (p, c # cs, []) \<noteq> [] \<or>
        (\<exists>u v. cs = u @ v \<and> rx_all ic r (before (Some c) u, v, []) \<noteq> [])"
    proof (cases u)
      case Nil
      with uv show ?thesis by (simp add: before_def)
    next
      case (Cons x u')
      with uv have "cs = u' @ v" "rx_all ic r (before (Some c) u', v, []) \<noteq> []"
        by (simp_all add: before_Cons)
      then show ?thesis by blast
    qed
  qed
  finally show ?case .
qed

text \<open>
  A pattern without \<open>^\<close> and \<open>$\<close> that is found in a text is found in every text that
  holds it between characters \<open>\b\<close> does not take for a part of a word.
\<close>

lemma search_embed:
  assumes "re_search ic r s \<noteq> None" "\<not> anchored r"
    and "pre = [] \<or> \<not> is_word (last pre)" "post = [] \<or> \<not> is_word (hd post)"
  shows "re_search ic r (pre @ s @ post) \<noteq> None"
proof -
  from assms(1) obtain u v where uv: "s = u @ v" "rx_all ic r (before None u, v, []) \<noteq> []"
    unfolding re_search_def search_from_iff by blast
  then obtain st' where st': "st' \<in> set (rx_all ic r (before None u, v, []))"
    by (cases "rx_all ic r (before None u, v, [])") auto
  have "wordness (before None (pre @ u)) = wordness (before None u)"
    using assms(3) by (auto simp: before_def wordness_def)
  then have "emb post (before None u, v, []) (before None (pre @ u), v @ post, [])"
    by (simp add: emb_def)
  from rx_all_embed [OF st' this assms(2,4)]
  have "rx_all ic r (before None (pre @ u), v @ post, []) \<noteq> []" by auto
  moreover have "pre @ s @ post = (pre @ u) @ (v @ post)" using uv(1) by simp
  ultimately show ?thesis unfolding re_search_def search_from_iff by blast
qed

section \<open>A sub-command lies in the command between separators and white space\<close>

lemma placed_push:
  assumes "placed w x xs"
  shows "placed (u @ w) (u @ x) xs"
proof -
  from assms obtain b where b: "w = x @ b" "b = [] \<or> sep_char (hd b)"
    unfolding placed_def by blast
  have 1: "\<exists>b. u @ w = (u @ x) @ b \<and> (b = [] \<or> sep_char (hd b))"
    using b by auto
  have 2: "\<exists>a b. u @ w = a @ seg @ b \<and> a \<noteq> [] \<and> sep_char (last a) \<and> (b = [] \<or> sep_char (hd b))"
    if "seg \<in> set xs" for seg
  proof -
    from assms that obtain a b where
      "w = a @ seg @ b" "a \<noteq> []" "sep_char (last a)" "b = [] \<or> sep_char (hd b)"
      unfolding placed_def by blast
    then have "u @ w = (u @ a) @ seg @ b \<and> u @ a \<noteq> [] \<and> sep_char (last (u @ a)) \<and>
               (b = [] \<or> sep_char (hd b))"
      by simp
    then show ?thesis by blast
  qed
  from 1 2 show ?thesis unfolding placed_def by blast
qed

lemma placed_sep:
  assumes "placed w x xs" "sp \<noteq> []" "sep_char (hd sp)" "sep_char (last sp)"
  shows "placed (sp @ w) [] (x # xs)"
proof -
  from assms(1) obtain b where b: "w = x @ b" "b = [] \<or> sep_char (hd b)"
    unfolding placed_def by blast
  have 1: "\<exists>b. sp @ w = [] @ b \<and> (b = [] \<or> sep_char (hd b))"
    using assms(2,3) by (cases sp) auto
  have 2: "\<exists>a b. sp @ w = a @ seg @ b \<and> a \<noteq> [] \<and> sep_char (last a) \<and> (b = [] \<or> sep_char (hd b))"
    if "seg \<in> set (x # xs)" for seg
  proof (cases "seg = x")
    case True
    with b assms(2,4) have "sp @ w = sp @ seg @ b \<and> sp \<noteq> [] \<and> sep_char (last sp) \<and>
        (b = [] \<or> sep_char (hd b))"
      by simp
    then show ?thesis by blast
  next
    case False
    with that have "seg \<in> set xs" by simp
    with assms(1) obtain a b where
      "w = a @ seg @ b" "a \<noteq> []" "sep_char (last a)" "b = [] \<or> sep_char (hd b)"
      unfolding placed_def by blast
    then have "sp @ w = (sp @ a) @ seg @ b \<and> sp @ a \<noteq> [] \<and> sep_char (last (sp @ a)) \<and>
               (b = [] \<or> sep_char (hd b))"
      by simp
    then show ?thesis by blast
  qed
  from 1 2 show ?thesis unfolding placed_def by blast
qed

lemma branch_sep_chars:
  "branch_of s d ch rest = BAnd \<Longrightarrow> ch = CHR ''&'' \<and> rest \<noteq> [] \<and> hd rest = CHR ''&''"
  "branch_of s d ch rest = BOr \<Longrightarrow> ch = CHR ''|'' \<and> rest \<noteq> [] \<and> hd rest = CHR ''|''"
  "branch_of s d ch rest = BSemi \<Longrightarrow> ch = CHR '';''"
  by (cases rest; auto simp: branch_of_def split: if_splits)+

lemma segs_placed: "segs s d w = x # xs \<Longrightarrow> placed w x xs"
proof (induction w arbitrary: s d x xs rule: length_induct)
  case (1 w)
  note IH = "1.IH" [rule_format]
  show ?case
  proof (cases w)
    case Nil
    with "1.prems" show ?thesis by (simp add: placed_def)
  next
    case (Cons ch rest)
    have pushed: "placed (u @ w') x xs"
      if "segs s' d' w' = x' # xs'" "length w' < length w" "push u (x' # xs') = x # xs"
      for u s' d' w' x' xs'
    proof -
      from IH [OF that(2,1)] have "placed w' x' xs'" .
      from placed_push [OF this, of u] that(3) show ?thesis by simp
    qed
    have sepd: "placed (sp @ w') x xs"
      if "segs s' d' w' = x' # xs'" "length w' < length w" "[] # x' # xs' = x # xs"
         "sp \<noteq> []" "sep_char (hd sp)" "sep_char (last sp)"
      for sp s' d' w' x' xs'
    proof -
      from IH [OF that(2,1)] have "placed w' x' xs'" .
      from placed_sep [OF this that(4,5,6)] that(3) show ?thesis by simp
    qed
    show ?thesis
    proof (cases "branch_of s d ch rest")
      case BEsc
      note r = branch_esc_rest [OF BEsc]
      obtain x' xs' where sg: "segs s d (tl rest) = x' # xs'"
        using segs_nonempty by (cases "segs s d (tl rest)") auto
      have "placed ([ch, hd rest] @ tl rest) x xs"
        by (rule pushed [OF sg]) (use "1.prems" Cons BEsc sg r in \<open>auto simp: segs.simps(2)\<close>)
      then show ?thesis using Cons r by (metis append_Cons append_Nil)
    next
      case BSingle
      obtain x' xs' where sg: "segs (\<not> s) d rest = x' # xs'"
        using segs_nonempty by (cases "segs (\<not> s) d rest") auto
      have "placed ([ch] @ rest) x xs"
        by (rule pushed [OF sg]) (use "1.prems" Cons BSingle sg in \<open>auto simp: segs.simps(2)\<close>)
      then show ?thesis using Cons by simp
    next
      case BDouble
      obtain x' xs' where sg: "segs s (\<not> d) rest = x' # xs'"
        using segs_nonempty by (cases "segs s (\<not> d) rest") auto
      have "placed ([ch] @ rest) x xs"
        by (rule pushed [OF sg]) (use "1.prems" Cons BDouble sg in \<open>auto simp: segs.simps(2)\<close>)
      then show ?thesis using Cons by simp
    next
      case BOther
      obtain x' xs' where sg: "segs s d rest = x' # xs'"
        using segs_nonempty by (cases "segs s d rest") auto
      have "placed ([ch] @ rest) x xs"
        by (rule pushed [OF sg]) (use "1.prems" Cons BOther sg in \<open>auto simp: segs.simps(2)\<close>)
      then show ?thesis using Cons by simp
    next
      case BAnd
      note c = branch_sep_chars(1) [OF BAnd]
      obtain x' xs' where sg: "segs s d (tl rest) = x' # xs'"
        using segs_nonempty by (cases "segs s d (tl rest)") auto
      have "placed ([ch, hd rest] @ tl rest) x xs"
        by (rule sepd [OF sg])
           (use "1.prems" Cons BAnd sg c in \<open>auto simp: segs.simps(2) sep_char_def\<close>)
      then show ?thesis using Cons c by (metis append_Cons append_Nil list.collapse)
    next
      case BOr
      note c = branch_sep_chars(2) [OF BOr]
      obtain x' xs' where sg: "segs s d (tl rest) = x' # xs'"
        using segs_nonempty by (cases "segs s d (tl rest)") auto
      have "placed ([ch, hd rest] @ tl rest) x xs"
        by (rule sepd [OF sg])
           (use "1.prems" Cons BOr sg c in \<open>auto simp: segs.simps(2) sep_char_def\<close>)
      then show ?thesis using Cons c by (metis append_Cons append_Nil list.collapse)
    next
      case BSemi
      note c = branch_sep_chars(3) [OF BSemi]
      obtain x' xs' where sg: "segs s d rest = x' # xs'"
        using segs_nonempty by (cases "segs s d rest") auto
      have "placed ([ch] @ rest) x xs"
        by (rule sepd [OF sg])
           (use "1.prems" Cons BSemi sg c in \<open>auto simp: segs.simps(2) sep_char_def\<close>)
      then show ?thesis using Cons by simp
    qed
  qed
qed

lemma space_not_word: "py_isspace c \<Longrightarrow> \<not> is_word c"
  by (auto simp: py_isspace_def is_word_def is_digit_def is_lower_ascii_def is_upper_ascii_def Let_def)

lemma sep_not_word: "sep_char c \<Longrightarrow> \<not> is_word c"
  by (auto simp: sep_char_def is_word_def is_digit_def is_lower_ascii_def is_upper_ascii_def Let_def)

lemma strip_decomp:
  "\<exists>l r. u = l @ strip u @ r \<and> (l = [] \<or> py_isspace (last l)) \<and> (r = [] \<or> py_isspace (hd r))"
proof -
  define l where "l = takeWhile py_isspace u"
  define v where "v = dropWhile py_isspace u"
  define r where "r = rev (takeWhile py_isspace (rev v))"
  have u: "u = l @ v" by (simp add: l_def v_def)
  have "v = rev (dropWhile py_isspace (rev v)) @ rev (takeWhile py_isspace (rev v))"
    by (metis rev_append rev_rev_ident takeWhile_dropWhile_id)
  then have v: "v = strip u @ r"
    unfolding strip_def lstrip_def rstrip_def r_def v_def .
  have 1: "l = [] \<or> py_isspace (last l)"
  proof (cases "l = []")
    case False
    then have "last l \<in> set (takeWhile py_isspace u)" unfolding l_def by simp
    then show ?thesis by (auto dest: set_takeWhileD)
  qed simp
  have 2: "r = [] \<or> py_isspace (hd r)"
  proof (cases "r = []")
    case False
    then have "hd r \<in> set (takeWhile py_isspace (rev v))"
      unfolding r_def by (metis hd_in_set set_rev)
    then show ?thesis by (auto dest: set_takeWhileD)
  qed simp
  from u v 1 2 have "u = l @ strip u @ r \<and> (l = [] \<or> py_isspace (last l)) \<and> (r = [] \<or> py_isspace (hd r))"
    by simp
  then show ?thesis by blast
qed

lemma part_embedded:
  assumes "sub \<in> set (split_shell_commands c)"
  shows "\<exists>pre post. c = pre @ sub @ post \<and> (pre = [] \<or> \<not> is_word (last pre)) \<and>
           (post = [] \<or> \<not> is_word (hd post))"
proof -
  from assms obtain u where u: "u \<in> set (segs False False c)" and p: "sub \<in> set (emit_raw u)"
    by (auto simp: split_shell_commands_def split_loop_segs push_Nil)
  from p have pe: "sub = strip u" "sub \<noteq> []"
    by (auto simp: emit_raw_def emit_part_def Let_def split: if_splits)
  obtain x xs where sg: "segs False False c = x # xs"
    using segs_nonempty by (cases "segs False False c") auto
  from segs_placed [OF sg] u sg obtain a b where
    ab: "c = a @ u @ b" "a = [] \<or> sep_char (last a)" "b = [] \<or> sep_char (hd b)"
    unfolding placed_def by (cases "u = x") (auto, (metis append_Nil)+)
  from strip_decomp [of u] pe(1) obtain l r where
    lr: "u = l @ sub @ r" "l = [] \<or> py_isspace (last l)" "r = [] \<or> py_isspace (hd r)"
    by blast
  have 1: "c = (a @ l) @ sub @ (r @ b)" using ab(1) lr(1) by simp
  have 2: "a @ l = [] \<or> \<not> is_word (last (a @ l))"
    using ab(2) lr(2) space_not_word sep_not_word by (cases "l = []") auto
  have 3: "r @ b = [] \<or> \<not> is_word (hd (r @ b))"
    using ab(3) lr(3) space_not_word sep_not_word by (cases "r = []") auto
  from 1 2 3 show ?thesis by blast
qed

section \<open>A chain and its sub-commands\<close>

lemma first_pattern_None_iff:
  "first_pattern ps s = None \<longleftrightarrow> (\<forall>r \<in> set ps. re_search True r s = None)"
  by (induction ps) auto

lemma regex_fallback_None_iff:
  "regex_fallback c = None \<longleftrightarrow> (\<forall>r \<in> set REGEX_DENY. re_search True r c = None)"
  by (simp add: regex_fallback_def first_pattern_None_iff [symmetric] split: option.splits)

lemma is_dangerous_None_iff:
  "is_dangerous 0 c = None \<longleftrightarrow>
     (\<forall>sub \<in> set (split_shell_commands c). structural_layers sub = None) \<and> regex_fallback c = None"
  by (cases "first_danger structural_layers (split_shell_commands c)")
     (simp_all add: is_dangerous_top first_danger_None_iff [symmetric])

text \<open>The two patterns of layer 4 that are anchored at the end of the text.\<close>

lemma anchored_patterns:
  "filter anchored REGEX_DENY =
     [Cat [WordB, Str ''chmod'', Plus Space, Star Dot, Plus Space, Str ''/'', Star Space, Eol],
      Cat [WordB, Str ''chown'', Plus Space, Star Dot, Plus Space, Str ''/'', Star Space, Eol]]"
  by code_simp

text \<open>
  A sub-command that layers 1 to 3 reject is rejected in the chain by the same layers, and a
  pattern of layer 4 without an anchor that is found in a sub-command is found in the chain.
\<close>

lemma sub_command_rejects_chain:
  assumes "sub \<in> set (split_shell_commands command)"
    and "is_dangerous 0 sub \<noteq> None"
    and "\<forall>r \<in> set REGEX_DENY. anchored r \<longrightarrow> re_search True r sub = None"
  shows "is_dangerous 0 command \<noteq> None"
proof (cases "structural_layers sub = None")
  case False
  with assms(1) have "\<not> (\<forall>sub \<in> set (split_shell_commands command). structural_layers sub = None)"
    by auto
  then show ?thesis unfolding is_dangerous_None_iff by simp
next
  case True
  have "split_shell_commands sub = [sub]" using assms(1) by (rule split_single)
  with assms(2) True have "regex_fallback sub \<noteq> None"
    unfolding is_dangerous_None_iff by simp
  then obtain r where r: "r \<in> set REGEX_DENY" "re_search True r sub \<noteq> None"
    unfolding regex_fallback_None_iff by auto
  with assms(3) have na: "\<not> anchored r" by auto
  from part_embedded [OF assms(1)] obtain pre post where
    c: "command = pre @ sub @ post" "pre = [] \<or> \<not> is_word (last pre)"
       "post = [] \<or> \<not> is_word (hd post)"
    by blast
  from search_embed [OF r(2) na c(2,3)] have "re_search True r command \<noteq> None"
    unfolding c(1) .
  with r(1) have "regex_fallback command \<noteq> None"
    unfolding regex_fallback_None_iff by auto
  then show ?thesis unfolding is_dangerous_None_iff by simp
qed

text \<open>
  Claim C2, amended. The filter is a function of the command string: it gives every
  command exactly one verdict. A chain is rejected whenever one of its sub-commands,
  checked on its own, is rejected, unless that sub-command matches one of the two patterns
  of layer 4 that are anchored at the end of the text (\<open>chmod\<close> and \<open>chown\<close> on \<open>/\<close>), for
  which nothing is said. A chain all of whose sub-commands are judged safe on their own
  is judged safe if and only if no pattern of layer 4 is found in the full command
  string.
\<close>

theorem chain_monotone:
  "(\<exists>!verdict. is_dangerous 0 command = verdict) \<and>
   (\<forall>sub \<in> set (split_shell_commands command).
      is_dangerous 0 sub \<noteq> None \<and>
      (\<forall>r \<in> set REGEX_DENY. anchored r \<longrightarrow> re_search True r sub = None) \<longrightarrow>
      is_dangerous 0 command \<noteq> None) \<and>
   ((\<forall>sub \<in> set (split_shell_commands command). is_dangerous 0 sub = None) \<longrightarrow>
      (is_dangerous 0 command = None \<longleftrightarrow>
         (\<forall>r \<in> set REGEX_DENY. re_search True r command = None)))"
proof (intro conjI ballI impI)
  show "\<exists>!verdict. is_dangerous 0 command = verdict" by simp
next
  fix sub
  assume "sub \<in> set (split_shell_commands command)"
    and "is_dangerous 0 sub \<noteq> None \<and>
         (\<forall>r \<in> set REGEX_DENY. anchored r \<longrightarrow> re_search True r sub = None)"
  then show "is_dangerous 0 command \<noteq> None"
    by (intro sub_command_rejects_chain [of sub command]) simp_all
next
  assume a: "\<forall>sub \<in> set (split_shell_commands command). is_dangerous 0 sub = None"
  have "structural_layers sub = None" if "sub \<in> set (split_shell_commands command)" for sub
  proof -
    from a that have "is_dangerous 0 sub = None" by simp
    moreover have "split_shell_commands sub = [sub]" using that by (rule split_single)
    ultimately show ?thesis unfolding is_dangerous_None_iff by simp
  qed
  then show "is_dangerous 0 command = None \<longleftrightarrow>
         (\<forall>r \<in> set REGEX_DENY. re_search True r command = None)"
    unfolding is_dangerous_None_iff regex_fallback_None_iff by simp
qed

lemma chain_example_split:
  "split_shell_commands ''ls -la; cat ~/.ssh/id_rsa'' = [''ls -la'', ''cat ~/.ssh/id_rsa'']"
  by code_simp

lemma chain_example_sub: "is_dangerous 0 ''cat ~/.ssh/id_rsa'' \<noteq> None"
  by code_simp

lemma chain_example_anchored:
  "filter (\<lambda>r. anchored r \<and> re_search True r ''cat ~/.ssh/id_rsa'' \<noteq> None) REGEX_DENY = []"
  by code_simp

lemma safe_chain_split: "split_shell_commands ''cd /tmp && ls -la'' = [''cd /tmp'', ''ls -la'']"
  by code_simp

lemma safe_chain_subs: "is_dangerous 0 ''cd /tmp'' = None" "is_dangerous 0 ''ls -la'' = None"
  by code_simp+

lemma safe_chain_patterns:
  "filter (\<lambda>r. re_search True r ''cd /tmp && ls -la'' \<noteq> None) REGEX_DENY = []"
  by code_simp

theorem chain_monotone_witness:
  "split_shell_commands ''ls -la; cat ~/.ssh/id_rsa'' = [''ls -la'', ''cat ~/.ssh/id_rsa''] \<and>
   is_dangerous 0 ''cat ~/.ssh/id_rsa'' \<noteq> None \<and>
   filter (\<lambda>r. anchored r \<and> re_search True r ''cat ~/.ssh/id_rsa'' \<noteq> None) REGEX_DENY = [] \<and>
   is_dangerous 0 ''ls -la; cat ~/.ssh/id_rsa'' \<noteq> None \<and>
   split_shell_commands ''cd /tmp && ls -la'' = [''cd /tmp'', ''ls -la''] \<and>
   is_dangerous 0 ''cd /tmp'' = None \<and> is_dangerous 0 ''ls -la'' = None \<and>
   filter (\<lambda>r. re_search True r ''cd /tmp && ls -la'' \<noteq> None) REGEX_DENY = [] \<and>
   is_dangerous 0 ''cd /tmp && ls -la'' = None"
proof -
  have a: "\<forall>r \<in> set REGEX_DENY. anchored r \<longrightarrow> re_search True r ''cat ~/.ssh/id_rsa'' = None"
    using chain_example_anchored unfolding filter_empty_conv by auto
  have p: "\<forall>r \<in> set REGEX_DENY. re_search True r ''cd /tmp && ls -la'' = None"
    using safe_chain_patterns unfolding filter_empty_conv by auto
  from chain_monotone [of "''ls -la; cat ~/.ssh/id_rsa''"] chain_example_sub a
  have 1: "is_dangerous 0 ''ls -la; cat ~/.ssh/id_rsa'' \<noteq> None"
    unfolding chain_example_split by simp
  from chain_monotone [of "''cd /tmp && ls -la''"] safe_chain_subs p
  have 2: "is_dangerous 0 ''cd /tmp && ls -la'' = None"
    unfolding safe_chain_split by simp
  from 1 2 chain_example_split chain_example_sub chain_example_anchored safe_chain_split
    safe_chain_subs safe_chain_patterns
  show ?thesis by blast
qed

section \<open>The structural \<open>rm\<close> check\<close>

lemma rm_flags_loop_spec:
  "rm_flags_loop ts = (\<Union>t \<in> set (takeWhile (\<lambda>t. t \<noteq> ''--'') ts). spec_flags_of_token t)"
  by (induction ts) (auto simp: spec_flags_of_token_def split: option.splits if_splits)

lemma extract_rm_flags_spec: "extract_rm_flags tokens = spec_rm_flags tokens"
  by (simp add: extract_rm_flags_def spec_rm_flags_def rm_flags_loop_spec)

lemma rm_targets_loop_past: "rm_targets_loop True ts = filter (\<lambda>t. t \<noteq> ''--'') ts"
  by (induction ts) auto

lemma rm_targets_loop_spec:
  "rm_targets_loop False ts =
     filter (\<lambda>t. \<not> startswith t ''-'') (takeWhile (\<lambda>t. t \<noteq> ''--'') ts) @
     filter (\<lambda>t. t \<noteq> ''--'') (dropWhile (\<lambda>t. t \<noteq> ''--'') ts)"
  by (induction ts) (auto simp: rm_targets_loop_past)

lemma extract_rm_targets_spec: "map normalize_target (extract_rm_targets tokens) = spec_rm_targets tokens"
  by (simp add: extract_rm_targets_def spec_rm_targets_def rm_targets_loop_spec)

lemma rm_target_loop_root:
  "r \<Longrightarrow> ''/'' \<in> set (map normalize_target ts) \<Longrightarrow> truthy (rm_target_loop r f ts)"
  by (induction ts) (auto simp: truthy_def Let_def)

lemma rm_target_loop_critical:
  "r \<Longrightarrow> f \<Longrightarrow> list_ex (\<lambda>t. t \<in> set DANGEROUS_RM_TARGETS) (map normalize_target ts)
     \<Longrightarrow> truthy (rm_target_loop r f ts)"
proof (induction ts)
  case Nil
  then show ?case by simp
next
  case (Cons t ts)
  show ?case
  proof (cases "normalize_target t \<in> set DANGEROUS_RM_TARGETS")
    case True
    then have "list_ex (\<lambda>d. normalize_target t = d \<or> normalize_target t = rstrip_char CHR ''/'' d) DANGEROUS_RM_TARGETS"
      unfolding list_ex_iff by blast
    with Cons.prems show ?thesis by (simp add: truthy_def Let_def)
  next
    case False
    with Cons have "truthy (rm_target_loop r f ts)" by simp
    with Cons.prems show ?thesis by (simp add: truthy_def Let_def)
  qed
qed

lemma check_rm_reject: "spec_rm_reject tokens \<Longrightarrow> truthy (check_rm tokens)"
  unfolding spec_rm_reject_def check_rm_def Let_def extract_rm_flags_spec
    extract_rm_targets_spec [symmetric]
  using rm_target_loop_root rm_target_loop_critical
  by (auto simp: truthy_def)

lemma strip_sudo_nonempty: "tokens \<noteq> [] \<Longrightarrow> strip_sudo tokens \<noteq> []"
  by (simp add: strip_sudo_def Let_def)

lemma check_subcommand_rm:
  assumes "tokenize sub \<noteq> []"
    and "base_of (hd (strip_sudo (tokenize sub))) = ''rm''"
    and "truthy (check_rm (strip_sudo (tokenize sub)))"
  shows "check_subcommand deeper sub \<noteq> None"
  using assms strip_sudo_nonempty [OF assms(1)]
  by (auto simp: check_subcommand_def Let_def BLOCKED_COMMANDS_def truthy_def split: option.splits)


text \<open>
  Claim C3. Take a sub-command of a command line whose tokens, after a leading \<open>sudo\<close>
  is stripped, have the base command \<open>rm\<close>. With the flags normalised (long flags
  mapped to their letters, bundled short flags split, nothing read after \<open>--\<close>,
  numeric-looking arguments skipped) and the targets stripped of trailing slashes (the
  empty target being \<open>/\<close>), the filter rejects the command line whenever (a) \<open>!\<close> and
  \<open>r\<close> are both flags, or (b) \<open>r\<close> is a flag and some target is \<open>/\<close>, or (c) \<open>r\<close> and \<open>f\<close>
  are flags and some target is one of the critical paths.
\<close>

theorem rm_structural_check:
  assumes "sub \<in> set (split_shell_commands command)"
    and "tokenize sub \<noteq> []"
    and "base_of (hd (strip_sudo (tokenize sub))) = ''rm''"
    and "spec_rm_reject (strip_sudo (tokenize sub))"
  shows "is_dangerous 0 command \<noteq> None"
proof -
  let ?chk = "check_subcommand (\<lambda>code. is_dangerous (0 + 1) code)"
  have "?chk sub \<noteq> None"
    using assms(2,3) check_rm_reject [OF assms(4)] by (rule check_subcommand_rm)
  then have "first_danger ?chk (split_shell_commands command) \<noteq> None"
    using assms(1) first_danger_Some by blast
  then show ?thesis
    by (subst is_dangerous.simps) (auto simp: MAX_CHECK_DEPTH_def split: option.splits)
qed

theorem rm_structural_check_witness:
  "''rm -vf --recursive -- /etc/'' \<in> set (split_shell_commands ''cd /tmp && rm -vf --recursive -- /etc/'') \<and>
   tokenize ''rm -vf --recursive -- /etc/'' \<noteq> [] \<and>
   base_of (hd (strip_sudo (tokenize ''rm -vf --recursive -- /etc/''))) = ''rm'' \<and>
   spec_rm_reject (strip_sudo (tokenize ''rm -vf --recursive -- /etc/'')) \<and>
   is_dangerous 0 ''cd /tmp && rm -vf --recursive -- /etc/'' \<noteq> None"
proof -
  have h1: "''rm -vf --recursive -- /etc/'' \<in> set (split_shell_commands ''cd /tmp && rm -vf --recursive -- /etc/'')"
    by code_simp
  have h2: "tokenize ''rm -vf --recursive -- /etc/'' \<noteq> []"
    by code_simp
  have h3: "base_of (hd (strip_sudo (tokenize ''rm -vf --recursive -- /etc/''))) = ''rm''"
    by code_simp
  have h4: "spec_rm_reject (strip_sudo (tokenize ''rm -vf --recursive -- /etc/''))"
    by code_simp
  from rm_structural_check [OF h1 h2 h3 h4] h1 h2 h3 h4 show ?thesis by blast
qed

section \<open>Building the graph and layering it\<close>

lemma add_deps_graph:
  assumes "graph_of N es (adj, deg)" and "nm \<in> N" and "set deps \<subseteq> N"
  shows "\<exists>g. add_deps nm deps (adj, deg) = Inr g \<and> graph_of N (es @ map (\<lambda>dep. (dep, nm)) deps) g"
  using assms
proof (induction deps arbitrary: adj deg es)
  case Nil
  then show ?case by simp
next
  case (Cons dep deps)
  from Cons.prems have g: "dom (map_of adj) = N" "dom (map_of deg) = N" "distinct (map fst deg)"
      "\<forall>n \<in> N. map_of adj n = Some (succs_of es n)"
      "\<forall>m \<in> N. map_of deg m = Some (indeg_of es m)"
    by (auto simp: graph_of_def)
  from Cons.prems have d: "dep \<in> N" "set deps \<subseteq> N" by auto
  let ?adj' = "AList.update dep (succs_of es dep @ [nm]) adj"
  let ?deg' = "AList.update nm (indeg_of es nm + 1) deg"
  let ?es' = "es @ [(dep, nm)]"
  have l1: "map_of adj dep = Some (succs_of es dep)" using g(4) d(1) by blast
  have l2: "map_of deg nm = Some (indeg_of es nm)" using g(5) Cons.prems(2) by blast
  have step: "add_deps nm (dep # deps) (adj, deg) = add_deps nm deps (?adj', ?deg')"
    using l1 l2 by simp
  have k1: "dom (map_of ?adj') = N" using g(1) d(1) by (auto simp: update_conv')
  have k2: "dom (map_of ?deg') = N" using g(2) Cons.prems(2) by (auto simp: update_conv')
  have k3: "distinct (map fst ?deg')" using g(3) by (simp add: distinct_update)
  have k4: "\<forall>n \<in> N. map_of ?adj' n = Some (succs_of ?es' n)"
    using g(4) by (auto simp: update_conv' succs_of_def)
  have k5: "\<forall>m \<in> N. map_of ?deg' m = Some (indeg_of ?es' m)"
    using g(5) by (auto simp: update_conv' indeg_of_def)
  have "graph_of N ?es' (?adj', ?deg')"
    unfolding graph_of_def using k1 k2 k3 k4 k5 by simp
  from Cons.IH [OF this Cons.prems(2) d(2)] step show ?case by simp
qed

lemma edges_Cons: "edges (s # ss) = map (\<lambda>dep. (dep, name s)) (depends_on s) @ edges ss"
  by (simp add: edges_def)

lemma build_loop_graph:
  assumes "graph_of N es g" and "\<forall>s \<in> set ss. name s \<in> N \<and> set (depends_on s) \<subseteq> N"
  shows "\<exists>g'. build_loop ss g = Inr g' \<and> graph_of N (es @ edges ss) g'"
  using assms
proof (induction ss arbitrary: es g)
  case Nil
  then show ?case by (simp add: edges_def)
next
  case (Cons s ss)
  obtain adj deg where g: "g = (adj, deg)" by (cases g)
  from Cons.prems have "name s \<in> N" "set (depends_on s) \<subseteq> N" by auto
  with add_deps_graph [of N es adj deg "name s" "depends_on s"] Cons.prems(1) g
  obtain g1 where g1: "add_deps (name s) (depends_on s) g = Inr g1"
      "graph_of N (es @ map (\<lambda>dep. (dep, name s)) (depends_on s)) g1"
    by auto
  from Cons.prems(2) have "\<forall>s \<in> set ss. name s \<in> N \<and> set (depends_on s) \<subseteq> N" by simp
  from Cons.IH [OF g1(2) this] g1(1) show ?case by (simp add: edges_Cons)
qed

lemma fold_update_distinct:
  "distinct (map fst al) \<Longrightarrow> distinct (map fst (fold (\<lambda>s al. AList.update (f s) v al) ss al))"
  by (induction ss arbitrary: al) (auto simp: distinct_update)

lemma fold_update_map:
  "map_of (fold (\<lambda>s al. AList.update (f s) v al) ss al) n =
     (if n \<in> f ` set ss then Some v else map_of al n)"
  by (induction ss arbitrary: al) (auto simp: update_conv')

lemma build_graph_ok:
  assumes "deps_resolved ss"
  shows "\<exists>g. build_graph ss = Inr g \<and> graph_of (name ` set ss) (edges ss) g"
proof -
  let ?N = "name ` set ss"
  let ?adj = "fold (\<lambda>s adj. AList.update (name s) [] adj) ss []"
  let ?deg = "fold (\<lambda>s deg. AList.update (name s) (0::int) deg) ss []"
  have m1: "map_of ?adj n = (if n \<in> ?N then Some [] else None)" for n
    by (simp add: fold_update_map)
  have m2: "map_of ?deg n = (if n \<in> ?N then Some 0 else None)" for n
    by (simp add: fold_update_map)
  have d1: "dom (map_of ?adj) = ?N" by (auto simp: dom_def m1)
  have d2: "dom (map_of ?deg) = ?N" by (auto simp: dom_def m2)
  have d3: "distinct (map fst ?deg)" using fold_update_distinct [of "[]" name "0::int" ss] by simp
  have "graph_of ?N [] (?adj, ?deg)"
    unfolding graph_of_def using d1 d2 d3 by (simp add: m1 m2 succs_of_def indeg_of_def)
  moreover have "\<forall>s \<in> set ss. name s \<in> ?N \<and> set (depends_on s) \<subseteq> ?N"
    using assms by (auto simp: deps_resolved_def)
  ultimately show ?thesis
    using build_loop_graph [of ?N "[]" "(?adj, ?deg)" ss] by (simp add: build_graph_def)
qed

lemma relax_append:
  "relax (xs @ ys) st = (case relax xs st of Inl e \<Rightarrow> Inl e | Inr st' \<Rightarrow> relax ys st')"
proof (induction xs arbitrary: st)
  case Nil
  then show ?case by simp
next
  case (Cons x xs)
  obtain deg q where "st = (deg, q)" by (cases st)
  with Cons show ?case by (simp split: option.splits)
qed

lemma process_layer_relax:
  "\<forall>n \<in> set layer. map_of adj n = Some (f n)
     \<Longrightarrow> process_layer adj layer st = relax (concat (map f layer)) st"
  by (induction layer arbitrary: st) (auto simp: relax_append split: sum.splits)

lemma relax_effect:
  assumes "set nbs \<subseteq> dom (map_of deg)"
  shows "\<exists>deg' new. relax nbs (deg, q) = Inr (deg', q @ new) \<and>
           (\<forall>m. map_of deg' m = map_option (\<lambda>v. v - int (count_list nbs m)) (map_of deg m)) \<and>
           distinct new \<and>
           set new = {m \<in> set nbs. \<exists>v. map_of deg m = Some v \<and> 0 < v \<and> v \<le> int (count_list nbs m)}"
  using assms
proof (induction nbs arbitrary: deg q)
  case Nil
  then show ?case by (simp add: option.map_ident)
next
  case (Cons nb nbs)
  from Cons.prems obtain k where k: "map_of deg nb = Some k" by auto
  let ?deg1 = "AList.update nb (k - 1) deg"
  let ?q1 = "if k - 1 = 0 then q @ [nb] else q"
  have m1: "map_of ?deg1 m = (if m = nb then Some (k - 1) else map_of deg m)" for m
    by (simp add: update_conv')
  have "set nbs \<subseteq> dom (map_of ?deg1)"
    using Cons.prems by (auto simp: m1)
  from Cons.IH [OF this, of ?q1] obtain deg' new where
    r1: "relax nbs (?deg1, ?q1) = Inr (deg', ?q1 @ new)" and
    r2: "\<forall>m. map_of deg' m = map_option (\<lambda>v. v - int (count_list nbs m)) (map_of ?deg1 m)" and
    r3: "distinct new" and
    r4: "set new = {m \<in> set nbs. \<exists>v. map_of ?deg1 m = Some v \<and> 0 < v \<and> v \<le> int (count_list nbs m)}"
    by blast
  let ?new = "(if k - 1 = 0 then [nb] else []) @ new"
  have a: "relax (nb # nbs) (deg, q) = Inr (deg', q @ ?new)"
    using k r1 by simp
  have b: "\<forall>m. map_of deg' m = map_option (\<lambda>v. v - int (count_list (nb # nbs) m)) (map_of deg m)"
  proof
    fix m
    show "map_of deg' m = map_option (\<lambda>v. v - int (count_list (nb # nbs) m)) (map_of deg m)"
    proof (cases "m = nb")
      case True
      then show ?thesis using r2 k by (simp add: m1)
    next
      case False
      then show ?thesis using r2 by (simp add: m1)
    qed
  qed
  have nbnew: "nb \<in> set new \<longleftrightarrow> nb \<in> set nbs \<and> 0 < k - 1 \<and> k - 1 \<le> int (count_list nbs nb)"
    unfolding r4 by (simp add: m1)
  have other: "m \<in> set new \<longleftrightarrow> m \<in> set nbs \<and> (\<exists>v. map_of deg m = Some v \<and> 0 < v \<and> v \<le> int (count_list nbs m))"
    if "m \<noteq> nb" for m
    unfolding r4 using that by (simp add: m1)
  have c: "distinct ?new" using r3 nbnew by simp
  have d: "set ?new = {m \<in> set (nb # nbs). \<exists>v. map_of deg m = Some v \<and> 0 < v \<and> v \<le> int (count_list (nb # nbs) m)}"
    (is "?L = ?R")
  proof (rule set_eqI)
    fix m
    show "m \<in> ?L \<longleftrightarrow> m \<in> ?R"
    proof (cases "m = nb")
      case True
      have z: "count_list nbs nb = 0 \<longleftrightarrow> nb \<notin> set nbs"
        by (simp add: count_list_0_iff)
      have "m \<in> ?L \<longleftrightarrow> k - 1 = 0 \<or> nb \<in> set new" using True by simp
      also have "\<dots> \<longleftrightarrow> k - 1 = 0 \<or> (nb \<in> set nbs \<and> 0 < k - 1 \<and> k - 1 \<le> int (count_list nbs nb))"
        using nbnew by simp
      also have "\<dots> \<longleftrightarrow> 0 < k \<and> k \<le> int (count_list nbs nb) + 1"
        using z by (cases "nb \<in> set nbs") auto
      also have "\<dots> \<longleftrightarrow> m \<in> ?R" using True k by auto
      finally show ?thesis .
    next
      case False
      then show ?thesis using other [OF False] by auto
    qed
  qed
  from a b c d show ?case by blast
qed

lemma length_filter_split:
  "length (filter P xs) = length (filter (\<lambda>x. P x \<and> Q x) xs) + length (filter (\<lambda>x. P x \<and> \<not> Q x) xs)"
  by (induction xs) auto

lemma count_succs_of: "count_list (succs_of es n) m = length (filter (\<lambda>e. snd e = m \<and> fst e = n) es)"
  unfolding succs_of_def by (induction es) auto

lemma count_list_append': "count_list (xs @ ys) x = count_list xs x + count_list ys x"
  by (induction xs) auto

lemma count_concat_succs:
  "distinct L \<Longrightarrow>
     count_list (concat (map (succs_of es) L)) m = length (filter (\<lambda>e. snd e = m \<and> fst e \<in> set L) es)"
proof (induction L)
  case Nil
  then show ?case by simp
next
  case (Cons n L)
  then have nL: "n \<notin> set L" and dL: "distinct L" by auto
  have "length (filter (\<lambda>e. snd e = m \<and> fst e \<in> set (n # L)) es) =
        length (filter (\<lambda>e. (snd e = m \<and> fst e \<in> set (n # L)) \<and> fst e = n) es) +
        length (filter (\<lambda>e. (snd e = m \<and> fst e \<in> set (n # L)) \<and> fst e \<noteq> n) es)"
    by (rule length_filter_split)
  moreover have "(\<lambda>e. (snd e = m \<and> fst e \<in> set (n # L)) \<and> fst e = n) = (\<lambda>e. snd e = m \<and> fst e = n)"
    by auto
  moreover have "(\<lambda>e. (snd e = m \<and> fst e \<in> set (n # L)) \<and> fst e \<noteq> n) = (\<lambda>e. snd e = m \<and> fst e \<in> set L)"
    using nL by auto
  ultimately show ?case using Cons.IH [OF dL] by (simp add: count_list_append' count_succs_of)
qed

lemma pending_in_step:
  assumes "L \<inter> Done = {}"
  shows "pending_in es (Done \<union> L) m =
           pending_in es Done m - int (length (filter (\<lambda>e. snd e = m \<and> fst e \<in> L) es))"
proof -
  have "length (filter (\<lambda>e. snd e = m \<and> fst e \<notin> Done) es) =
        length (filter (\<lambda>e. (snd e = m \<and> fst e \<notin> Done) \<and> fst e \<in> L) es) +
        length (filter (\<lambda>e. (snd e = m \<and> fst e \<notin> Done) \<and> fst e \<notin> L) es)"
    by (rule length_filter_split)
  moreover have "(\<lambda>e. (snd e = m \<and> fst e \<notin> Done) \<and> fst e \<in> L) = (\<lambda>e. snd e = m \<and> fst e \<in> L)"
    using assms by auto
  moreover have "(\<lambda>e. (snd e = m \<and> fst e \<notin> Done) \<and> fst e \<notin> L) = (\<lambda>e. snd e = m \<and> fst e \<notin> Done \<union> L)"
    by auto
  ultimately show ?thesis by (simp add: pending_in_def)
qed

lemma pending_in_nonneg: "0 \<le> pending_in es Done m"
  by (simp add: pending_in_def)

lemma kahn_step:
  assumes inv: "kahn_inv N es adj Done deg queue"
  shows "\<exists>deg' queue'. process_layer adj (sort queue) (deg, []) = Inr (deg', queue') \<and>
           kahn_inv N es adj (Done \<union> set queue) deg' queue'"
proof -
  from inv have
    adj: "\<forall>n \<in> N. map_of adj n = Some (succs_of es n)" and
    es: "\<forall>e \<in> set es. fst e \<in> N \<and> snd e \<in> N" and
    dom: "dom (map_of deg) = N" and
    dq: "distinct queue" and qN: "set queue \<subseteq> N" and qD: "set queue \<inter> Done = {}" and
    deg: "\<forall>m \<in> N. map_of deg m = Some (pending_in es Done m)" and
    zero: "\<forall>m \<in> Done \<union> set queue. pending_in es Done m = 0"
    by (auto simp: kahn_inv_def)
  let ?layer = "sort queue"
  let ?nbs = "concat (map (succs_of es) ?layer)"
  let ?Done' = "Done \<union> set queue"
  have "\<forall>n \<in> set ?layer. map_of adj n = Some (succs_of es n)" using adj qN by auto
  then have pl: "process_layer adj ?layer (deg, []) = relax ?nbs (deg, [])"
    by (rule process_layer_relax)
  have nbsN: "set ?nbs \<subseteq> N" using es by (auto simp: succs_of_def)
  then have "set ?nbs \<subseteq> dom (map_of deg)" using dom by simp
  from relax_effect [OF this, of "[]"] obtain deg' new where
    r1: "relax ?nbs (deg, []) = Inr (deg', new)" and
    r2: "\<forall>m. map_of deg' m = map_option (\<lambda>v. v - int (count_list ?nbs m)) (map_of deg m)" and
    r3: "distinct new" and
    r4: "set new = {m \<in> set ?nbs. \<exists>v. map_of deg m = Some v \<and> 0 < v \<and> v \<le> int (count_list ?nbs m)}"
    by auto
  have cnt: "int (count_list ?nbs m) = pending_in es Done m - pending_in es ?Done' m" for m
    using count_concat_succs [of ?layer es m] dq pending_in_step [of "set queue" Done es m] qD
    by simp
  have deg': "\<forall>m \<in> N. map_of deg' m = Some (pending_in es ?Done' m)"
    using r2 deg cnt by simp
  have dom': "dom (map_of deg') = N"
    using r2 dom by (auto simp: dom_def)
  have new: "m \<in> set new \<longleftrightarrow> m \<in> set ?nbs \<and> 0 < pending_in es Done m \<and> pending_in es ?Done' m \<le> 0" for m
  proof (cases "m \<in> set ?nbs")
    case True
    then have "m \<in> N" using nbsN by blast
    then have "map_of deg m = Some (pending_in es Done m)" using deg by blast
    then show ?thesis unfolding r4 using True cnt [of m] by auto
  next
    case False
    then show ?thesis unfolding r4 by simp
  qed
  have newN: "set new \<subseteq> N" using new nbsN by blast
  have newD: "set new \<inter> ?Done' = {}" using new zero by fastforce
  have zero': "\<forall>m \<in> ?Done' \<union> set new. pending_in es ?Done' m = 0"
  proof
    fix m assume "m \<in> ?Done' \<union> set new"
    then consider "m \<in> Done \<union> set queue" | "m \<in> set new" by blast
    then show "pending_in es ?Done' m = 0"
    proof cases
      case 1
      then have "pending_in es Done m = 0" using zero by blast
      moreover have "pending_in es ?Done' m \<le> pending_in es Done m"
        using pending_in_step [of "set queue" Done es m] qD by simp
      ultimately show ?thesis using pending_in_nonneg [of es ?Done' m] by linarith
    next
      case 2
      then have "pending_in es ?Done' m \<le> 0" using new by blast
      then show ?thesis using pending_in_nonneg [of es ?Done' m] by linarith
    qed
  qed
  have "kahn_inv N es adj ?Done' deg' new"
    unfolding kahn_inv_def using adj es dom' r3 newN newD deg' zero' by blast
  with pl r1 show ?thesis by auto
qed

lemma layered_Cons:
  assumes "\<forall>m \<in> set l. \<forall>e \<in> set es. snd e = m \<longrightarrow> fst e \<in> Done"
    and "layered es (Done \<union> set l) ls"
  shows "layered es Done (l # ls)"
  unfolding layered_def
proof (intro allI impI ballI)
  fix k m e
  assume k: "k < length (l # ls)" and m: "m \<in> set ((l # ls) ! k)" and e: "e \<in> set es" "snd e = m"
  show "fst e \<in> Done \<or> (\<exists>j < k. fst e \<in> set ((l # ls) ! j))"
  proof (cases k)
    case 0
    with m e assms(1) show ?thesis by auto
  next
    case (Suc k')
    with k m have "k' < length ls" "m \<in> set (ls ! k')" by auto
    with assms(2) e have "fst e \<in> Done \<union> set l \<or> (\<exists>j < k'. fst e \<in> set (ls ! j))"
      unfolding layered_def by blast
    then consider "fst e \<in> Done" | "fst e \<in> set l" | j where "j < k'" "fst e \<in> set (ls ! j)"
      by blast
    then show ?thesis
    proof cases
      case 1
      then show ?thesis by simp
    next
      case 2
      then have "0 < k \<and> fst e \<in> set ((l # ls) ! 0)" using Suc by simp
      then show ?thesis by blast
    next
      case 3
      then have "Suc j < k \<and> fst e \<in> set ((l # ls) ! Suc j)" using Suc by simp
      then show ?thesis by blast
    qed
  qed
qed

lemma kahn_loop_correct:
  "kahn_inv N es adj Done deg queue \<Longrightarrow>
     \<exists>layers. kahn_loop adj deg queue = Inr layers \<and>
       distinct (concat layers) \<and> set (concat layers) \<subseteq> N - Done \<and>
       (\<forall>l \<in> set layers. sorted l \<and> l \<noteq> []) \<and> layered es Done layers"
proof (induction adj deg queue arbitrary: Done rule: kahn_loop.induct)
  case (1 adj deg queue)
  show ?case
  proof (cases "queue = []")
    case True
    then show ?thesis by (simp add: kahn_loop.simps layered_def)
  next
    case False
    let ?layer = "sort queue"
    from kahn_step [OF "1.prems"] obtain deg' queue' where
      p: "process_layer adj ?layer (deg, []) = Inr (deg', queue')" and
      inv': "kahn_inv N es adj (Done \<union> set queue) deg' queue'"
      by blast
    from "1.IH" [OF False refl p refl inv'] obtain layers where
      l1: "kahn_loop adj deg' queue' = Inr layers" and
      l2: "distinct (concat layers)" and
      l3: "set (concat layers) \<subseteq> N - (Done \<union> set queue)" and
      l4: "\<forall>l \<in> set layers. sorted l \<and> l \<noteq> []" and
      l5: "layered es (Done \<union> set queue) layers"
      by blast
    from "1.prems" have
      dq: "distinct queue" and qN: "set queue \<subseteq> N" and qD: "set queue \<inter> Done = {}" and
      zero: "\<forall>m \<in> Done \<union> set queue. pending_in es Done m = 0"
      by (auto simp: kahn_inv_def)
    have r: "kahn_loop adj deg queue = Inr (?layer # layers)"
      using False p l1 by (simp add: kahn_loop.simps)
    have d: "distinct (concat (?layer # layers))"
      using l2 l3 dq by auto
    have s: "set (concat (?layer # layers)) \<subseteq> N - Done"
      using l3 qN qD by auto
    have so: "\<forall>l \<in> set (?layer # layers). sorted l \<and> l \<noteq> []"
    proof -
      have "set ?layer \<noteq> {}" using False by simp
      then have "?layer \<noteq> []" by (metis set_empty)
      then show ?thesis using l4 by (simp add: sorted_sort)
    qed
    have first: "\<forall>m \<in> set ?layer. \<forall>e \<in> set es. snd e = m \<longrightarrow> fst e \<in> Done"
    proof (intro ballI impI)
      fix m e assume m: "m \<in> set ?layer" and e: "e \<in> set es" "snd e = m"
      from m zero have "filter (\<lambda>e. snd e = m \<and> fst e \<notin> Done) es = []"
        by (simp add: pending_in_def)
      with e show "fst e \<in> Done" by (auto simp: filter_empty_conv)
    qed
    have "layered es Done (?layer # layers)"
      using first l5 by (intro layered_Cons) simp_all
    with r d s so show ?thesis by blast
  qed
qed

lemma edges_iff:
  "(dep, m) \<in> set (edges ss) \<longleftrightarrow> (\<exists>s \<in> set ss. name s = m \<and> dep \<in> set (depends_on s))"
  by (auto simp: edges_def)

lemma get_execution_order_ok:
  assumes "deps_resolved (steps w)"
  shows "\<exists>layers. get_execution_order w = Inr layers \<and>
           distinct (concat layers) \<and> set (concat layers) \<subseteq> name ` set (steps w) \<and>
           (\<forall>l \<in> set layers. sorted l \<and> l \<noteq> []) \<and> layered (edges (steps w)) {} layers"
proof -
  let ?ss = "steps w"
  let ?N = "name ` set ?ss"
  let ?es = "edges ?ss"
  from build_graph_ok [OF assms] obtain g0 where
    b0: "build_graph ?ss = Inr g0" and g0: "graph_of ?N ?es g0"
    by blast
  obtain adj deg where ad: "g0 = (adj, deg)" by (cases g0)
  from b0 g0 ad have b: "build_graph ?ss = Inr (adj, deg)" and g: "graph_of ?N ?es (adj, deg)"
    by simp_all
  from g have
    g1: "dom (map_of deg) = ?N" and g2: "distinct (map fst deg)" and
    g3: "\<forall>n \<in> ?N. map_of adj n = Some (succs_of ?es n)" and
    g4: "\<forall>m \<in> ?N. map_of deg m = Some (indeg_of ?es m)"
    by (auto simp: graph_of_def)
  let ?queue = "map fst (filter (\<lambda>(n, d). d = 0) deg)"
  have e: "\<forall>e \<in> set ?es. fst e \<in> ?N \<and> snd e \<in> ?N"
    using assms by (auto simp: edges_def deps_resolved_def)
  have dq: "distinct ?queue" using g2 by (simp add: distinct_map_filter)
  have qN: "set ?queue \<subseteq> ?N"
  proof
    fix n assume "n \<in> set ?queue"
    then have "n \<in> fst ` set deg" by auto
    then show "n \<in> ?N" using g1 by (simp add: dom_map_of_conv_image_fst)
  qed
  have p0: "pending_in ?es {} m = indeg_of ?es m" for m
    by (simp add: pending_in_def indeg_of_def)
  have z: "\<forall>m \<in> {} \<union> set ?queue. pending_in ?es {} m = 0"
  proof
    fix m assume "m \<in> {} \<union> set ?queue"
    then have "(m, 0) \<in> set deg" by auto
    then have "map_of deg m = Some 0" using g2 by simp
    moreover have "m \<in> ?N" using \<open>m \<in> {} \<union> set ?queue\<close> qN by blast
    ultimately show "pending_in ?es {} m = 0" using g4 p0 by simp
  qed
  have "kahn_inv ?N ?es adj {} deg ?queue"
    unfolding kahn_inv_def using g1 g3 g4 e dq qN z by (simp add: p0)
  from kahn_loop_correct [OF this] b show ?thesis
    by (simp add: get_execution_order_def)
qed

lemma layeredD:
  "layered es Done layers \<Longrightarrow> k < length layers \<Longrightarrow> m \<in> set (layers ! k) \<Longrightarrow> (d, m) \<in> set es
     \<Longrightarrow> d \<in> Done \<or> (\<exists>j < k. d \<in> set (layers ! j))"
  unfolding layered_def by (metis fst_conv snd_conv)

lemma layered_descend:
  assumes "layered (edges ss) {} layers" and "(a, b) \<in> (dep_rel ss)\<^sup>+"
    and "k < length layers" and "a \<in> set (layers ! k)"
  shows "\<exists>j < k. b \<in> set (layers ! j)"
  using assms(2,3,4)
proof (induction arbitrary: k rule: trancl_induct)
  case (base b)
  then have "(b, a) \<in> set (edges ss)" by (auto simp: dep_rel_def edges_iff)
  from layeredD [OF assms(1) base(2,3) this] show ?case by simp
next
  case (step b c)
  from step.IH [OF step.prems] obtain j where j: "j < k" "b \<in> set (layers ! j)" by blast
  from step.hyps(2) have cb: "(c, b) \<in> set (edges ss)" by (auto simp: dep_rel_def edges_iff)
  have jl: "j < length layers" using j(1) step.prems(1) by simp
  from layeredD [OF assms(1) jl j(2) cb] obtain i where i: "i < j" "c \<in> set (layers ! i)"
    by auto
  from i(1) j(1) have "i < k" by simp
  with i(2) show ?case by blast
qed

lemma cycle_not_layered:
  assumes "layered (edges ss) {} layers" and "(n, n) \<in> (dep_rel ss)\<^sup>+"
  shows "n \<notin> set (concat layers)"
proof -
  have "k < length layers \<Longrightarrow> n \<notin> set (layers ! k)" for k
  proof (induction k rule: less_induct)
    case (less k)
    show ?case
    proof
      assume "n \<in> set (layers ! k)"
      from layered_descend [OF assms(1,2) less.prems this] obtain j where
        "j < k" "n \<in> set (layers ! j)" by blast
      moreover have "j < length layers" using \<open>j < k\<close> less.prems by simp
      ultimately show False using less.IH by blast
    qed
  qed
  note none = this
  show ?thesis
  proof
    assume "n \<in> set (concat layers)"
    then obtain l where "l \<in> set layers" "n \<in> set l" by auto
    then obtain k where "k < length layers" "n \<in> set (layers ! k)"
      by (auto simp: in_set_conv_nth)
    with none show False by blast
  qed
qed

lemma cycle_node_is_step: "(n, m) \<in> (dep_rel ss)\<^sup>+ \<Longrightarrow> n \<in> name ` set ss"
  by (induction rule: trancl_induct) (auto simp: dep_rel_def)

lemma length_concat_sum: "length (concat ls) = sum_list (map length ls)"
  by (induction ls) auto

lemma cycle_shortens:
  assumes "deps_resolved (steps w)" and "has_cycle (steps w)"
  shows "\<exists>layers. get_execution_order w = Inr layers \<and>
           sum_list (map length layers) \<noteq> length (steps w)"
proof -
  from get_execution_order_ok [OF assms(1)] obtain layers where
    l: "get_execution_order w = Inr layers" "distinct (concat layers)"
       "set (concat layers) \<subseteq> name ` set (steps w)" "layered (edges (steps w)) {} layers"
    by blast
  from assms(2) obtain n where n: "(n, n) \<in> (dep_rel (steps w))\<^sup>+" by (auto simp: has_cycle_def)
  have "n \<notin> set (concat layers)" using cycle_not_layered [OF l(4) n] .
  moreover have "n \<in> name ` set (steps w)" using cycle_node_is_step [OF n] .
  ultimately have "set (concat layers) \<subset> name ` set (steps w)" using l(3) by blast
  then have "card (set (concat layers)) < card (name ` set (steps w))"
    by (intro psubset_card_mono) simp_all
  moreover have "card (name ` set (steps w)) \<le> card (set (steps w))"
    by (rule card_image_le) simp
  moreover have "card (set (steps w)) \<le> length (steps w)" by (rule card_length)
  moreover have "card (set (concat layers)) = length (concat layers)"
    by (rule distinct_card [OF l(2)])
  ultimately have "length (concat layers) < length (steps w)" by linarith
  with l(1) show ?thesis by (simp add: length_concat_sum)
qed

section \<open>Validation and the layers of a valid workflow\<close>

lemma checks_clean:
  assumes "checks_before_cycle w = []"
  shows "deps_resolved (steps w) \<and> distinct (map name (steps w))"
proof -
  let ?names = "set (map name (steps w))"
  from assms have c: "card ?names = length (steps w)"
    and u: "\<forall>s \<in> set (steps w). unknown_dep_errors ?names s = []"
    by (auto simp: checks_before_cycle_def Let_def split: if_splits)
  have "dep \<in> ?names" if "s \<in> set (steps w)" "dep \<in> set (depends_on s)" for s dep
  proof (rule ccontr)
    assume "dep \<notin> ?names"
    with that(2) have "unknown_dep_errors ?names s \<noteq> []"
      by (auto simp: unknown_dep_errors_def)
    with u that(1) show False by blast
  qed
  then have "deps_resolved (steps w)" by (auto simp: deps_resolved_def)
  moreover have "distinct (map name (steps w))"
    using c by (intro card_distinct) simp
  ultimately show ?thesis by blast
qed

lemma validate_total: "\<exists>errs. validate w = Inr errs"
proof (cases "steps w = [] \<or> checks_before_cycle w \<noteq> []")
  case True
  then show ?thesis by (auto simp: validate_def Let_def)
next
  case False
  then have "deps_resolved (steps w)" using checks_clean by blast
  from get_execution_order_ok [OF this] obtain layers where "get_execution_order w = Inr layers"
    by blast
  with False show ?thesis by (simp add: validate_def Let_def)
qed

lemma validate_empty:
  assumes "validate w = Inr []"
  shows "checks_before_cycle w = [] \<and>
         (\<exists>layers. get_execution_order w = Inr layers \<and> sum_list (map length layers) = length (steps w))"
proof -
  from assms have ne: "steps w \<noteq> []" by (auto simp: validate_def split: if_splits)
  with assms have c: "checks_before_cycle w = []"
    by (auto simp: validate_def Let_def split: if_splits)
  from ne c assms show ?thesis
    by (auto simp: validate_def Let_def split: sum.splits if_splits)
qed

lemma distinct_concat_disjoint:
  "distinct (concat ls) \<Longrightarrow> i < j \<Longrightarrow> j < length ls \<Longrightarrow> set (ls ! i) \<inter> set (ls ! j) = {}"
proof (induction ls arbitrary: i j)
  case Nil
  then show ?case by simp
next
  case (Cons l ls)
  from Cons.prems(2) obtain j' where j: "j = Suc j'" by (cases j) auto
  show ?case
  proof (cases i)
    case 0
    have "ls ! j' \<in> set ls" using Cons.prems(3) j by simp
    then have "set (ls ! j') \<subseteq> set (concat ls)" by auto
    with Cons.prems(1) 0 j show ?thesis by auto
  next
    case (Suc i')
    with Cons j show ?thesis by auto
  qed
qed

lemma distinct_concat_unique:
  assumes "distinct (concat ls)" and "i < length ls" and "j < length ls"
    and "x \<in> set (ls ! i)" and "x \<in> set (ls ! j)"
  shows "i = j"
proof (rule ccontr)
  assume "i \<noteq> j"
  then consider "i < j" | "j < i" by linarith
  then show False
    using distinct_concat_disjoint [OF assms(1), of i j] distinct_concat_disjoint [OF assms(1), of j i] assms(2-5)
    by cases auto
qed

text \<open>
  Claim C4. For every workflow on which \<open>validate\<close> returns the empty list,
  \<open>get_execution_order\<close> returns layers that partition the steps: the layer sizes add up
  to the number of steps, no name occurs twice in the layers, each step's name is in
  exactly one layer, every name in the \<open>depends_on\<close> of a step of layer k is in a layer
  before k, and each layer is sorted.
\<close>

theorem execution_order_partitions:
  assumes "validate w = Inr []"
  shows "\<exists>layers. get_execution_order w = Inr layers \<and>
           sum_list (map length layers) = length (steps w) \<and>
           distinct (concat layers) \<and>
           (\<forall>s \<in> set (steps w). \<exists>!k. k < length layers \<and> name s \<in> set (layers ! k)) \<and>
           (\<forall>k < length layers. \<forall>s \<in> set (steps w). name s \<in> set (layers ! k) \<longrightarrow>
              (\<forall>dep \<in> set (depends_on s). \<exists>j < k. dep \<in> set (layers ! j))) \<and>
           (\<forall>layer \<in> set layers. sorted layer)"
proof -
  let ?N = "name ` set (steps w)"
  from validate_empty [OF assms] obtain layers where
    c: "checks_before_cycle w = []" and
    g: "get_execution_order w = Inr layers" and
    total: "sum_list (map length layers) = length (steps w)"
    by blast
  from checks_clean [OF c] have r: "deps_resolved (steps w)" and d: "distinct (map name (steps w))"
    by simp_all
  from get_execution_order_ok [OF r] g have
    dl: "distinct (concat layers)" and sub: "set (concat layers) \<subseteq> ?N" and
    so: "\<forall>l \<in> set layers. sorted l \<and> l \<noteq> []" and lay: "layered (edges (steps w)) {} layers"
    by simp_all
  have "card (set (concat layers)) = length (concat layers)" by (rule distinct_card [OF dl])
  also have "\<dots> = length (steps w)" using total by (simp add: length_concat_sum)
  also have "\<dots> = card ?N" using distinct_card [OF d] by simp
  finally have "card (set (concat layers)) = card ?N" .
  with sub have all: "set (concat layers) = ?N" by (intro card_subset_eq) simp_all
  have once: "\<exists>!k. k < length layers \<and> name s \<in> set (layers ! k)" if "s \<in> set (steps w)" for s
  proof -
    from that all have "name s \<in> set (concat layers)" by blast
    then obtain l where "l \<in> set layers" "name s \<in> set l" by auto
    then obtain k where k: "k < length layers" "name s \<in> set (layers ! k)"
      by (auto simp: in_set_conv_nth)
    show ?thesis
    proof (rule ex1I [of _ k])
      show "k < length layers \<and> name s \<in> set (layers ! k)" using k by simp
    next
      fix k' assume "k' < length layers \<and> name s \<in> set (layers ! k')"
      then show "k' = k" using distinct_concat_unique [OF dl _ k(1) _ k(2)] by blast
    qed
  qed
  have before: "\<exists>j < k. dep \<in> set (layers ! j)"
    if "k < length layers" "s \<in> set (steps w)" "name s \<in> set (layers ! k)" "dep \<in> set (depends_on s)"
    for k s dep
  proof -
    from that(2,4) have "(dep, name s) \<in> set (edges (steps w))" by (auto simp: edges_iff)
    from layeredD [OF lay that(1,3) this] show ?thesis by simp
  qed
  have sorted_layers: "\<forall>layer \<in> set layers. sorted layer" using so by blast
  have once': "\<forall>s \<in> set (steps w). \<exists>!k. k < length layers \<and> name s \<in> set (layers ! k)"
    using once by (intro ballI)
  have before': "\<forall>k < length layers. \<forall>s \<in> set (steps w). name s \<in> set (layers ! k) \<longrightarrow>
      (\<forall>dep \<in> set (depends_on s). \<exists>j < k. dep \<in> set (layers ! j))"
    using before by (intro allI impI ballI)
  show ?thesis
    by (rule exI [of _ layers]) (intro conjI g total dl once' before' sorted_layers)
qed


lemma join_example_valid: "validate join_example = Inr []"
  unfolding join_example_def mk_step_def by code_simp

theorem execution_order_partitions_witness:
  "validate join_example = Inr [] \<and>
   (\<exists>layers. get_execution_order join_example = Inr layers \<and>
      sum_list (map length layers) = length (steps join_example) \<and> distinct (concat layers))"
  using execution_order_partitions [OF join_example_valid] join_example_valid by blast

lemma join_example_layers: "get_execution_order join_example = Inr [[''a'', ''b''], [''c'']]"
  unfolding join_example_def mk_step_def by code_simp

section \<open>Workflows with a cycle\<close>

lemma has_cycle_nonempty: "has_cycle ss \<Longrightarrow> ss \<noteq> []"
  unfolding has_cycle_def using cycle_node_is_step by fastforce

text \<open>
  Claim C5, amended. For every workflow whose \<open>depends_on\<close> names all resolve and whose
  dependency graph has a cycle, \<open>validate\<close> returns a non-empty error list. When no
  earlier check reports an error (workflow name, step names, prompts, timeouts, duplicate
  names), the list is exactly the message "Circular dependency detected in workflow
  steps"; otherwise it is the list of the earlier errors, and the cycle check is not run.
\<close>

theorem cyclic_workflow_fails_validation:
  assumes "deps_resolved (steps w)" and "has_cycle (steps w)"
  shows "\<exists>errs. validate w = Inr errs \<and> errs \<noteq> [] \<and>
           (checks_before_cycle w = [] \<longrightarrow> errs = [''Circular dependency detected in workflow steps'']) \<and>
           (checks_before_cycle w \<noteq> [] \<longrightarrow> errs = checks_before_cycle w)"
proof -
  have ne: "steps w \<noteq> []" using assms(2) by (rule has_cycle_nonempty)
  from cycle_shortens [OF assms] obtain layers where
    l: "get_execution_order w = Inr layers" "sum_list (map length layers) \<noteq> length (steps w)"
    by blast
  show ?thesis
  proof (cases "checks_before_cycle w = []")
    case True
    with ne l have "validate w = Inr [''Circular dependency detected in workflow steps'']"
      by (simp add: validate_def Let_def)
    with True show ?thesis by simp
  next
    case False
    with ne have "validate w = Inr (checks_before_cycle w)"
      by (simp add: validate_def Let_def)
    with False show ?thesis by simp
  qed
qed

lemma two_cycle: "(''a'', ''a'') \<in> (dep_rel [mk_step ''a'' ''A'' [''b''], mk_step ''b'' ''B'' [''a'']])\<^sup>+"
proof -
  let ?r = "dep_rel [mk_step ''a'' ''A'' [''b''], mk_step ''b'' ''B'' [''a'']]"
  have "(''a'', ''b'') \<in> ?r" by (simp add: dep_rel_def mk_step_def)
  moreover have "(''b'', ''a'') \<in> ?r" by (simp add: dep_rel_def mk_step_def)
  ultimately show ?thesis by (rule trancl_into_trancl [OF r_into_trancl])
qed

lemma cyclic_example_resolved: "deps_resolved (steps cyclic_example)"
  by (simp add: deps_resolved_def cyclic_example_def mk_step_def)

lemma cyclic_example_cycle: "has_cycle (steps cyclic_example)"
  unfolding has_cycle_def cyclic_example_def using two_cycle by auto

lemma cyclic_example_checks: "checks_before_cycle cyclic_example = []"
  unfolding cyclic_example_def mk_step_def by code_simp

theorem cyclic_workflow_fails_validation_witness:
  "deps_resolved (steps cyclic_example) \<and> has_cycle (steps cyclic_example) \<and>
   checks_before_cycle cyclic_example = [] \<and>
   validate cyclic_example = Inr [''Circular dependency detected in workflow steps'']"
  using cyclic_workflow_fails_validation [OF cyclic_example_resolved cyclic_example_cycle]
    cyclic_example_resolved cyclic_example_cycle cyclic_example_checks
  by auto

lemma unnamed_cyclic_example_resolved: "deps_resolved (steps unnamed_cyclic_example)"
  by (simp add: deps_resolved_def unnamed_cyclic_example_def mk_step_def)

lemma unnamed_cyclic_example_cycle: "has_cycle (steps unnamed_cyclic_example)"
  unfolding has_cycle_def unnamed_cyclic_example_def using two_cycle by auto

lemma unnamed_cyclic_example_errors:
  "validate unnamed_cyclic_example = Inr [''Workflow name cannot be empty'']"
  unfolding unnamed_cyclic_example_def mk_step_def by code_simp

text \<open>
  Claim C5 as stated fails: a workflow with an empty name and two steps that depend on
  each other has a cycle and resolvable dependencies, and \<open>validate\<close> returns only the
  error about the name, because the cycle check runs under \<open>if not errors\<close>.
\<close>

theorem cycle_message_counterexample:
  "deps_resolved (steps unnamed_cyclic_example) \<and> has_cycle (steps unnamed_cyclic_example) \<and>
   validate unnamed_cyclic_example = Inr [''Workflow name cannot be empty''] \<and>
   ''Circular dependency detected in workflow steps'' \<notin> set [''Workflow name cannot be empty'']"
  using unnamed_cyclic_example_resolved unnamed_cyclic_example_cycle unnamed_cyclic_example_errors
  by simp

section \<open>Dependencies that do not resolve\<close>

lemma add_deps_append:
  "add_deps nm (xs @ ys) g = (case add_deps nm xs g of Inl e \<Rightarrow> Inl e | Inr g' \<Rightarrow> add_deps nm ys g')"
proof (induction xs arbitrary: g)
  case Nil
  then show ?case by simp
next
  case (Cons x xs)
  obtain adj deg where "g = (adj, deg)" by (cases g)
  with Cons show ?case by (simp split: option.splits)
qed

lemma add_deps_unknown:
  assumes "graph_of N es (adj, deg)" and "nm \<in> N" and "\<not> set deps \<subseteq> N"
  shows "\<exists>dep. add_deps nm deps (adj, deg) = Inl (KeyError dep)"
proof -
  from assms(3) have "\<exists>d \<in> set deps. d \<notin> N" by blast
  then obtain pre dep post where
    sp: "deps = pre @ dep # post" "dep \<notin> N" "\<forall>d \<in> set pre. \<not> d \<notin> N"
    using split_list_first_prop [of deps "\<lambda>d. d \<notin> N"] by blast
  then have "set pre \<subseteq> N" by blast
  from add_deps_graph [OF assms(1,2) this] obtain g' where
    g': "add_deps nm pre (adj, deg) = Inr g'" "graph_of N (es @ map (\<lambda>dep. (dep, nm)) pre) g'"
    by blast
  obtain adj' deg' where ad: "g' = (adj', deg')" by (cases g')
  with g'(2) have "dom (map_of adj') = N" by (simp add: graph_of_def)
  with sp(2) have "map_of adj' dep = None" by blast
  then have "add_deps nm (dep # post) g' = Inl (KeyError dep)" using ad by simp
  with g'(1) sp(1) show ?thesis by (simp add: add_deps_append)
qed

lemma build_loop_unknown:
  assumes "graph_of N es g" and "\<forall>s \<in> set ss. name s \<in> N"
    and "\<exists>s \<in> set ss. \<not> set (depends_on s) \<subseteq> N"
  shows "\<exists>dep. build_loop ss g = Inl (KeyError dep)"
  using assms
proof (induction ss arbitrary: es g)
  case Nil
  then show ?case by simp
next
  case (Cons s ss)
  obtain adj deg where g: "g = (adj, deg)" by (cases g)
  have nm: "name s \<in> N" using Cons.prems(2) by simp
  show ?case
  proof (cases "set (depends_on s) \<subseteq> N")
    case True
    from add_deps_graph [OF Cons.prems(1) [unfolded g] nm True] obtain g1 where
      g1: "add_deps (name s) (depends_on s) g = Inr g1"
          "graph_of N (es @ map (\<lambda>dep. (dep, name s)) (depends_on s)) g1"
      using g by blast
    have "\<forall>s \<in> set ss. name s \<in> N" using Cons.prems(2) by simp
    moreover have "\<exists>s \<in> set ss. \<not> set (depends_on s) \<subseteq> N" using Cons.prems(3) True by auto
    ultimately obtain dep where "build_loop ss g1 = Inl (KeyError dep)"
      using Cons.IH [OF g1(2)] by blast
    with g1(1) show ?thesis by simp
  next
    case False
    from add_deps_unknown [OF Cons.prems(1) [unfolded g] nm False] g show ?thesis by auto
  qed
qed

lemma get_execution_order_unresolved:
  assumes "\<not> deps_resolved (steps w)"
  shows "\<exists>dep. get_execution_order w = Inl (KeyError dep)"
proof -
  let ?ss = "steps w"
  let ?N = "name ` set ?ss"
  let ?adj = "fold (\<lambda>s adj. AList.update (name s) [] adj) ?ss []"
  let ?deg = "fold (\<lambda>s deg. AList.update (name s) (0::int) deg) ?ss []"
  have m1: "map_of ?adj n = (if n \<in> ?N then Some [] else None)" for n
    by (simp add: fold_update_map)
  have m2: "map_of ?deg n = (if n \<in> ?N then Some 0 else None)" for n
    by (simp add: fold_update_map)
  have d1: "dom (map_of ?adj) = ?N" by (auto simp: dom_def m1)
  have d2: "dom (map_of ?deg) = ?N" by (auto simp: dom_def m2)
  have d3: "distinct (map fst ?deg)" using fold_update_distinct [of "[]" name "0::int" ?ss] by simp
  have g: "graph_of ?N [] (?adj, ?deg)"
    unfolding graph_of_def using d1 d2 d3 by (simp add: m1 m2 succs_of_def indeg_of_def)
  have "\<exists>s \<in> set ?ss. \<not> set (depends_on s) \<subseteq> ?N"
    using assms by (auto simp: deps_resolved_def)
  from build_loop_unknown [OF g _ this] obtain dep where "build_loop ?ss (?adj, ?deg) = Inl (KeyError dep)"
    by auto
  then show ?thesis by (auto simp: get_execution_order_def build_graph_def)
qed

lemma dangling_example_unresolved: "\<not> deps_resolved (steps dangling_example)"
  by (simp add: deps_resolved_def dangling_example_def mk_step_def)

lemma dangling_example_raises: "get_execution_order dangling_example = Inl (KeyError ''ghost'')"
  unfolding dangling_example_def mk_step_def by code_simp

lemma dangling_example_validate:
  "validate dangling_example = Inr [''Step '' @ quoted ''a'' @ '' depends on unknown step '' @ quoted ''ghost'']"
  unfolding dangling_example_def mk_step_def by code_simp

text \<open>
  Claim C10. \<open>get_execution_order\<close> returns layers for every workflow whose \<open>depends_on\<close>
  names are all names of its steps; it raises \<open>KeyError\<close> for every workflow with a name
  in a \<open>depends_on\<close> that is no step's name, as on the example whose step depends on
  \<open>ghost\<close>. \<open>validate\<close> never raises: it returns the errors of its earlier checks
  without layering when there are any.
\<close>

theorem execution_order_needs_resolved_deps:
  "(deps_resolved (steps w) \<longrightarrow> (\<exists>layers. get_execution_order w = Inr layers)) \<and>
   (\<not> deps_resolved (steps w) \<longrightarrow> (\<exists>dep. get_execution_order w = Inl (KeyError dep))) \<and>
   (\<not> deps_resolved (steps dangling_example) \<and>
    get_execution_order dangling_example = Inl (KeyError ''ghost'')) \<and>
   (\<exists>errs. validate w = Inr errs) \<and>
   (checks_before_cycle w \<noteq> [] \<longrightarrow> steps w \<noteq> [] \<longrightarrow> validate w = Inr (checks_before_cycle w))"
proof -
  have "\<exists>layers. get_execution_order w = Inr layers" if "deps_resolved (steps w)"
    using get_execution_order_ok [OF that] by blast
  moreover have "validate w = Inr (checks_before_cycle w)"
    if "checks_before_cycle w \<noteq> []" "steps w \<noteq> []"
    using that by (simp add: validate_def Let_def)
  moreover have "\<exists>dep. get_execution_order w = Inl (KeyError dep)" if "\<not> deps_resolved (steps w)"
    using that by (rule get_execution_order_unresolved)
  ultimately show ?thesis
    using dangling_example_unresolved dangling_example_raises validate_total [of w] by blast
qed

lemma join_example_resolved: "deps_resolved (steps join_example)"
  by (simp add: deps_resolved_def join_example_def mk_step_def)

theorem execution_order_needs_resolved_deps_witness:
  "deps_resolved (steps join_example) \<and> (\<exists>layers. get_execution_order join_example = Inr layers) \<and>
   \<not> deps_resolved (steps dangling_example) \<and>
   (\<exists>dep. get_execution_order dangling_example = Inl (KeyError dep)) \<and>
   checks_before_cycle dangling_example \<noteq> [] \<and> steps dangling_example \<noteq> [] \<and>
   validate dangling_example = Inr (checks_before_cycle dangling_example)"
proof -
  have c: "checks_before_cycle dangling_example \<noteq> []"
    unfolding dangling_example_def mk_step_def by code_simp
  have s: "steps dangling_example \<noteq> []" by (simp add: dangling_example_def)
  from execution_order_needs_resolved_deps [of join_example] join_example_resolved
  have "\<exists>layers. get_execution_order join_example = Inr layers" by blast
  moreover from execution_order_needs_resolved_deps [of dangling_example] c s
  have "validate dangling_example = Inr (checks_before_cycle dangling_example)" by blast
  moreover from execution_order_needs_resolved_deps [of dangling_example] dangling_example_unresolved
  have "\<exists>dep. get_execution_order dangling_example = Inl (KeyError dep)" by blast
  ultimately show ?thesis using join_example_resolved dangling_example_unresolved c s by blast
qed

section \<open>Lemmas about the cron-phrase parser\<close>

subsection \<open>What a group of digits captures\<close>

lemma star_all_content:
  "st' \<in> set (star_all ic a p g s) \<Longrightarrow>
   \<exists>xs. s = xs @ fst (snd st') \<and> list_all (cls_match ic a) xs \<and> snd (snd st') = g"
proof (induction s arbitrary: p)
  case Nil
  then show ?case by simp
next
  case (Cons c cs)
  show ?case
  proof (cases "st' = (p, c # cs, g)")
    case True
    then show ?thesis by simp
  next
    case False
    with Cons.prems have m: "cls_match ic a c" and "st' \<in> set (star_all ic a (Some c) g cs)"
      by (auto split: if_splits)
    from Cons.IH [OF this(2)] obtain xs where
      "cs = xs @ fst (snd st')" "list_all (cls_match ic a) xs" "snd (snd st') = g"
      by blast
    with m have "c # cs = (c # xs) @ fst (snd st') \<and> list_all (cls_match ic a) (c # xs) \<and> snd (snd st') = g"
      by simp
    then show ?thesis by blast
  qed
qed

lemma rep_all_content:
  "st' \<in> set (rep_all ic a lo hi p g s) \<Longrightarrow>
   \<exists>xs. s = xs @ fst (snd st') \<and> list_all (cls_match ic a) xs \<and> lo \<le> length xs \<and> snd (snd st') = g"
proof (induction s arbitrary: p lo hi)
  case Nil
  then show ?case by (simp split: if_splits)
next
  case (Cons c cs)
  show ?case
  proof (cases "lo = 0 \<and> st' = (p, c # cs, g)")
    case True
    then show ?thesis by simp
  next
    case False
    with Cons.prems have m: "cls_match ic a c"
      and "st' \<in> set (rep_all ic a (lo - 1) (hi - 1) (Some c) g cs)"
      by (auto split: if_splits)
    from Cons.IH [OF this(2)] obtain xs where
      "cs = xs @ fst (snd st')" "list_all (cls_match ic a) xs" "lo - 1 \<le> length xs" "snd (snd st') = g"
      by blast
    with m have "c # cs = (c # xs) @ fst (snd st') \<and> list_all (cls_match ic a) (c # xs) \<and>
                 lo \<le> length (c # xs) \<and> snd (snd st') = g"
      by simp
    then show ?thesis by blast
  qed
qed

lemma plus_digit_content:
  assumes "(p', s', g') \<in> set (rx_all ic (Plus Digit) (p, s, g))"
  shows "\<exists>ds. s = ds @ s' \<and> ds \<noteq> [] \<and> list_all is_digit ds"
proof -
  from assms obtain c cs where s: "s = c # cs" "is_digit c" "(p', s', g') \<in> set (star_all ic Digit (Some c) g cs)"
    by (cases s) (auto split: if_splits)
  from star_all_content [OF s(3)] obtain xs where "cs = xs @ s'" "list_all (cls_match ic Digit) xs"
    by auto
  with s(1,2) have "s = (c # xs) @ s' \<and> c # xs \<noteq> [] \<and> list_all is_digit (c # xs)"
    by (simp add: list_all_iff)
  then show ?thesis by blast
qed

lemma rep_digit_content:
  assumes "(p', s', g') \<in> set (rx_all ic (Rep Digit (Suc lo) hi) (p, s, g))"
  shows "\<exists>ds. s = ds @ s' \<and> ds \<noteq> [] \<and> list_all is_digit ds"
proof -
  from assms have "(p', s', g') \<in> set (rep_all ic Digit (Suc lo) hi p g s)" by simp
  from rep_all_content [OF this] obtain xs where
    "s = xs @ s'" "list_all (cls_match ic Digit) xs" "Suc lo \<le> length xs"
    by auto
  then have "s = xs @ s' \<and> xs \<noteq> [] \<and> list_all is_digit xs"
    by (auto simp: list_all_iff)
  then show ?thesis by blast
qed

lemma cat_all_append:
  "set (cat_all (fs1 @ fs2) st) = (\<Union>st1 \<in> set (cat_all fs1 st). set (cat_all fs2 st1))"
  by (induction fs1 arbitrary: st) auto

lemma re_search_from_SomeD:
  "re_search_from ic r p s = Some m \<Longrightarrow>
   \<exists>q t st'. st' \<in> set (rx_all ic r (q, t, [])) \<and> snd (snd st') = m"
proof (induction s arbitrary: p)
  case Nil
  then have "first_some (\<lambda>(p, s, g). Some g) (rx_all ic r (p, [], [])) = Some m"
    by (simp add: rx_m_all)
  from first_some_SomeD [OF this] show ?case by (auto split: prod.splits) blast
next
  case (Cons c cs)
  show ?case
  proof (cases "rx_m ic r (\<lambda>(p, s, g). Some g) (p, c # cs, [])")
    case None
    with Cons.prems have "re_search_from ic r (Some c) cs = Some m" by simp
    from Cons.IH [OF this] show ?thesis .
  next
    case (Some g)
    with Cons.prems have "first_some (\<lambda>(p, s, g). Some g) (rx_all ic r (p, c # cs, [])) = Some m"
      by (simp add: rx_m_all)
    from first_some_SomeD [OF this] show ?thesis by (auto split: prod.splits) blast
  qed
qed

lemma cat_all_mid:
  "st' \<in> set (cat_all (map f (pre @ x # post)) st) \<Longrightarrow>
   \<exists>st1 st2. st2 \<in> set (f x st1) \<and> st' \<in> set (cat_all (map f post) st2)"
proof -
  assume "st' \<in> set (cat_all (map f (pre @ x # post)) st)"
  then obtain st1 where "st' \<in> set (cat_all (f x # map f post) st1)"
    unfolding map_append list.map cat_all_append by blast
  then have "\<exists>st2 \<in> set (f x st1). st' \<in> set (cat_all (map f post) st2)"
    by simp
  then show ?thesis by blast
qed

lemma grp_all_D:
  "st2 \<in> set (rx_all ic (Grp n r) (p, s, g)) \<Longrightarrow>
   \<exists>p' s' g'. (p', s', g') \<in> set (rx_all ic r (p, s, g)) \<and>
      st2 = (p', s', (n, take (length s - length s') s) # g')"
  by auto

text \<open>
  A group of one or more digits, followed in its pattern by elements that do not set the
  group again, holds a non-empty string of digits after a successful search.
\<close>

lemma search_group_digits:
  assumes "re_search ic (Cat (pre @ Grp n r # post)) text = Some m"
    and "n \<notin> \<Union> (set (map grps post))"
    and "r = Plus Digit \<or> (\<exists>lo hi. r = Rep Digit (Suc lo) hi)"
  shows "\<exists>ds. group m n = Some ds \<and> ds \<noteq> [] \<and> list_all is_digit ds"
proof -
  from assms(1) obtain q t st' where
    st': "st' \<in> set (rx_all ic (Cat (pre @ Grp n r # post)) (q, t, []))" "snd (snd st') = m"
    unfolding re_search_def using re_search_from_SomeD by blast
  from st'(1) have "st' \<in> set (cat_all (map (rx_all ic) (pre @ Grp n r # post)) (q, t, []))"
    by simp
  from cat_all_mid [OF this] obtain st1 st2 where
    1: "st2 \<in> set (rx_all ic (Grp n r) st1)"
    and 2: "st' \<in> set (cat_all (map (rx_all ic) post) st2)"
    by blast
  obtain p s g where st1: "st1 = (p, s, g)" by (cases st1)
  from grp_all_D [OF 1 [unfolded st1]] obtain p' s' g' where
    3: "(p', s', g') \<in> set (rx_all ic r (p, s, g))"
    and 4: "st2 = (p', s', (n, take (length s - length s') s) # g')"
    by blast
  from 3 assms(3) obtain ds where ds: "s = ds @ s'" "ds \<noteq> []" "list_all is_digit ds"
    using plus_digit_content rep_digit_content by blast
  have "later (\<Union> (set (map grps post))) st2 st'"
    by (rule cat_all_ext [OF 2]) (rule rx_all_ext)
  with assms(2) have "map_of (snd (snd st')) n = map_of (snd (snd st2)) n"
    by (simp add: later_def)
  with 4 ds st'(2) have "group m n = Some ds" by (simp add: group_def)
  with ds show ?thesis by blast
qed

lemma grps_Str [simp]: "grps (Str s) = {}"
  by (simp add: Str_def)

lemma minutes_group:
  assumes "re_search True MINUTES_RX text = Some m"
  shows "\<exists>ds. group m 1 = Some ds \<and> ds \<noteq> [] \<and> list_all is_digit ds"
proof (rule search_group_digits)
  show "re_search True (Cat ([Str ''every'', Plus Space] @ Grp 1 (Plus Digit) #
          [Plus Space, Str ''minute'', Opt (Atom (Lit CHR ''s''))])) text = Some m"
    using assms by (simp add: MINUTES_RX_def)
  show "1 \<notin> \<Union> (set (map grps [Plus Space, Str ''minute'', Opt (Atom (Lit CHR ''s''))]))"
    by simp
  show "Plus Digit = Plus Digit \<or> (\<exists>lo hi. Plus Digit = Rep Digit (Suc lo) hi)"
    by simp
qed

lemma hours_group:
  assumes "re_search True HOURS_RX text = Some m"
  shows "\<exists>ds. group m 1 = Some ds \<and> ds \<noteq> [] \<and> list_all is_digit ds"
proof (rule search_group_digits)
  show "re_search True (Cat ([Str ''every'', Plus Space] @ Grp 1 (Plus Digit) #
          [Plus Space, Str ''hour'', Opt (Atom (Lit CHR ''s''))])) text = Some m"
    using assms by (simp add: HOURS_RX_def)
  show "1 \<notin> \<Union> (set (map grps [Plus Space, Str ''hour'', Opt (Atom (Lit CHR ''s''))]))"
    by simp
  show "Plus Digit = Plus Digit \<or> (\<exists>lo hi. Plus Digit = Rep Digit (Suc lo) hi)"
    by simp
qed

lemma month_group:
  assumes "re_search True MONTH_RX text = Some m"
  shows "\<exists>ds. group m 1 = Some ds \<and> ds \<noteq> [] \<and> list_all is_digit ds"
proof (rule search_group_digits)
  show "re_search True (Cat ([Str ''every'', Plus Space, Str ''month'', Plus Space, Str ''on'',
          Plus Space, Str ''the'', Plus Space] @ Grp 1 (Rep Digit (Suc 0) 2) #
          [Opt (Grp 2 (Alt [Str ''st'', Str ''nd'', Str ''rd'', Str ''th'']))])) text = Some m"
    using assms by (simp add: MONTH_RX_def)
  show "1 \<notin> \<Union> (set (map grps [Opt (Grp 2 (Alt [Str ''st'', Str ''nd'', Str ''rd'', Str ''th'']))]))"
    by simp
  show "Rep Digit (Suc 0) 2 = Plus Digit \<or> (\<exists>lo hi. Rep Digit (Suc 0) 2 = Rep Digit (Suc lo) hi)"
    by simp
qed

text \<open>The group of the raw cron pattern holds the text, up to a final newline.\<close>

lemma cron_match_group:
  assumes "re_match False CRON_RX text = Some m"
  shows "\<exists>g1 rest. group m 1 = Some g1 \<and> text = g1 @ rest \<and> (rest = [] \<or> rest = [CHR 0x0A])"
proof -
  define R where "R = Cat [Plus CRON_FIELD, Plus Space, Plus CRON_FIELD, Plus Space, Plus CRON_FIELD,
                      Plus Space, Plus CRON_FIELD, Plus Space, Plus CRON_FIELD]"
  have C: "CRON_RX = Cat [Bol, Grp 1 R, Eol]" by (simp add: CRON_RX_def R_def)
  from assms have "first_some (\<lambda>(p, s, g). Some g) (rx_all False CRON_RX (None, text, [])) = Some m"
    by (simp add: re_match_def rx_m_all)
  from first_some_SomeD [OF this] obtain p3 s3 where
    "(p3, s3, m) \<in> set (rx_all False CRON_RX (None, text, []))"
    by (auto split: prod.splits)
  then have "\<exists>st2. st2 \<in> set (rx_all False (Grp 1 R) (None, text, [])) \<and>
      (p3, s3, m) \<in> set (rx_all False Eol st2)"
    unfolding C by auto
  then obtain st2 where
    2: "st2 \<in> set (rx_all False (Grp 1 R) (None, text, []))"
    and 3: "(p3, s3, m) \<in> set (rx_all False Eol st2)"
    by blast
  from grp_all_D [OF 2] obtain p' s' g' where
    4: "(p', s', g') \<in> set (rx_all False R (None, text, []))"
    and 5: "st2 = (p', s', (1, take (length text - length s') text) # g')"
    by blast
  from rx_all_ext [OF 4] obtain xs where xs: "text = xs @ s'" by (auto simp: later_def)
  from 3 5 have "m = (1, take (length text - length s') text) # g'" and "s' = [] \<or> s' = [CHR 0x0A]"
    by (auto split: if_splits)
  with xs have "group m 1 = Some xs \<and> text = xs @ s' \<and> (s' = [] \<or> s' = [CHR 0x0A])"
    by (auto simp: group_def)
  then show ?thesis by blast
qed

subsection \<open>Stripped strings\<close>

lemma dropWhile_unchanged: "xs \<noteq> [] \<Longrightarrow> \<not> P (hd xs) \<Longrightarrow> dropWhile P xs = xs"
  by (cases xs) simp_all

lemma strip_unchanged:
  assumes "s \<noteq> []" "\<not> py_isspace (hd s)" "\<not> py_isspace (last s)"
  shows "strip s = s"
proof -
  have 1: "dropWhile py_isspace s = s" using assms(1,2) by (rule dropWhile_unchanged)
  have "dropWhile py_isspace (rev s) = rev s"
    using assms(1,3) by (intro dropWhile_unchanged) (simp_all add: hd_rev)
  with 1 show ?thesis by (simp add: strip_def lstrip_def rstrip_def)
qed

lemma strip_ends:
  assumes ne: "strip s \<noteq> []"
  shows "\<not> py_isspace (hd (strip s)) \<and> \<not> py_isspace (last (strip s))"
proof -
  define t where "t = dropWhile py_isspace s"
  have r: "rev (strip s) = dropWhile py_isspace (rev t)"
    by (simp add: strip_def lstrip_def rstrip_def t_def)
  have t: "t \<noteq> []"
  proof
    assume "t = []"
    with r have "rev (strip s) = []" by simp
    with ne show False by simp
  qed
  have "rev (strip s) \<noteq> []" using ne by simp
  then have "\<not> py_isspace (hd (rev (strip s)))"
    unfolding r by (rule hd_dropWhile)
  then have l: "\<not> py_isspace (last (strip s))" using ne by (simp add: hd_rev)
  have h0: "\<not> py_isspace (hd t)" unfolding t_def using t [unfolded t_def] by (rule hd_dropWhile)
  have "rev t = takeWhile py_isspace (rev t) @ rev (strip s)"
    unfolding r by simp
  then have "rev (rev t) = rev (takeWhile py_isspace (rev t) @ rev (strip s))" by simp
  then have "t = strip s @ rev (takeWhile py_isspace (rev t))" by (simp only: rev_append rev_rev_ident)
  with ne have "hd t = hd (strip s)" by (metis hd_append2)
  with h0 l show ?thesis by simp
qed

lemma strip_Nil: "strip [] = []"
  by (simp add: strip_def lstrip_def rstrip_def)

lemma strip_strip: "strip (strip s) = strip s"
proof (cases "strip s = []")
  case True
  then show ?thesis by (simp add: strip_Nil)
next
  case False
  with strip_ends [OF False] show ?thesis by (simp add: strip_unchanged)
qed

subsection \<open>Characters of cron expressions\<close>

lemma cron_field_char:
  "cls_match False CRON_FIELD c \<longleftrightarrow> is_digit c \<or> c \<in> set ''*/,-''"
  by (auto simp: CRON_FIELD_def)


lemma cron_field_not_space: "cls_match False CRON_FIELD c \<Longrightarrow> \<not> py_isspace c"
  by (auto simp: cron_field_char is_digit_def py_isspace_def)


lemma cron_field_not_e: "cls_match False CRON_FIELD c \<Longrightarrow> \<not> cls_match True (Lit CHR ''e'') c"
  by (auto simp: cron_field_char is_digit_def ascii_lower_def)

lemma space_not_e: "py_isspace c \<Longrightarrow> \<not> cls_match True (Lit CHR ''e'') c"
  by (auto simp: py_isspace_def ascii_lower_def)

lemma space_not_cron_field: "py_isspace c \<Longrightarrow> \<not> cls_match False CRON_FIELD c"
  using cron_field_not_space by blast

subsection \<open>A pattern that starts with a letter the text does not have\<close>

lemma search_none_first:
  "\<forall>c \<in> set s. \<not> cls_match ic a c \<Longrightarrow>
   re_search_from ic (Cat (Cat (Atom a # as) # rs)) p s = None"
  by (induction s arbitrary: p) simp_all

lemma every_search_none:
  assumes "\<forall>c \<in> set s. \<not> cls_match True (Lit CHR ''e'') c"
  shows "re_search True (Cat (Str ''every'' # rs)) s = None"
  unfolding re_search_def Str_def using assms by (simp add: search_none_first)

lemma nl_patterns_none:
  assumes "\<forall>c \<in> set s. \<not> cls_match True (Lit CHR ''e'') c"
  shows "nl_loop NL_PATTERNS s = None"
    and "re_search True EVERY_DAY_RX s = None"
    and "re_search True DAY_RX s = None"
    and "re_search True WEEKDAY_RX s = None"
proof -
  note e = every_search_none [OF assms]
  show 1: "re_search True EVERY_DAY_RX s = None" by (simp add: EVERY_DAY_RX_def e)
  show 2: "re_search True DAY_RX s = None" by (simp add: DAY_RX_def e)
  show 3: "re_search True WEEKDAY_RX s = None" by (simp add: WEEKDAY_RX_def e)
  have "re_search True MINUTES_RX s = None" "re_search True HOURS_RX s = None"
    "re_search True EVERY_MINUTE_RX s = None" "re_search True EVERY_HOUR_RX s = None"
    "re_search True MONTH_RX s = None"
    by (simp_all add: MINUTES_RX_def HOURS_RX_def EVERY_MINUTE_RX_def EVERY_HOUR_RX_def MONTH_RX_def e)
  with 1 2 3 show "nl_loop NL_PATTERNS s = None" by (simp add: NL_PATTERNS_def)
qed

subsection \<open>A greedy repetition that succeeds without backtracking\<close>

lemma rx_star_greedy:
  assumes "list_all (cls_match ic a) xs"
    and "rest = [] \<or> \<not> cls_match ic a (hd rest)"
    and "k (if xs = [] then p else Some (last xs), rest, g) = Some r"
  shows "rx_star ic a k p g (xs @ rest) = Some r"
  using assms
proof (induction xs arbitrary: p)
  case Nil
  then show ?case by (cases rest) auto
next
  case (Cons x xs)
  have "rx_star ic a k (Some x) g (xs @ rest) = Some r"
    by (rule Cons.IH) (use Cons.prems in \<open>auto split: if_splits\<close>)
  with Cons.prems(1) show ?case by simp
qed

lemma plus_greedy:
  assumes "xs \<noteq> []" "list_all (cls_match ic a) xs"
    and "rest = [] \<or> \<not> cls_match ic a (hd rest)"
    and "k (Some (last xs), rest, g) = Some r"
  shows "rx_m ic (Plus a) k (p, xs @ rest, g) = Some r"
proof -
  from assms(1) obtain x xs' where xs: "xs = x # xs'" by (cases xs) auto
  have "rx_star ic a k (Some x) g (xs' @ rest) = Some r"
    by (rule rx_star_greedy) (use assms xs in \<open>auto split: if_splits\<close>)
  with assms(2) xs show ?thesis by simp
qed

lemma field_step:
  assumes "field_ok f" "rest = [] \<or> py_isspace (hd rest)"
    and "k (Some (last f), rest, g) = Some r"
  shows "rx_m False (Plus CRON_FIELD) k (p, f @ rest, g) = Some r"
  using assms by (intro plus_greedy) (auto simp: field_ok_def space_not_cron_field)

lemma space_step:
  assumes "field_ok f" "k (Some CHR '' '', f @ rest, g) = Some r"
  shows "rx_m False (Plus Space) k (p, CHR '' '' # f @ rest, g) = Some r"
proof -
  have ns: "\<not> cls_match False Space (hd (f @ rest))"
    using assms(1) by (cases f) (auto simp: field_ok_def cron_field_not_space)
  have "rx_m False (Plus Space) k (p, [CHR '' ''] @ (f @ rest), g) = Some r"
    by (rule plus_greedy) (use assms(2) ns in \<open>simp_all add: py_isspace_def\<close>)
  then show ?thesis by simp
qed

text \<open>The raw cron pattern matches five fields separated by single spaces, all of them.\<close>

lemma cron_match:
  assumes "field_ok f1" "field_ok f2" "field_ok f3" "field_ok f4" "field_ok f5"
  shows "re_match False CRON_RX (cron5 f1 f2 f3 f4 f5) = Some [(1, cron5 f1 f2 f3 f4 f5)]"
proof -
  define c where "c = cron5 f1 f2 f3 f4 f5"
  define K :: "mstate \<Rightarrow> (nat \<times> string) list option" where
    "K = (\<lambda>(p', s', g'). rx_cat [rx_m False Eol] (\<lambda>(p, s, g). Some g)
            (p', s', (1, take (length c - length s') c) # g'))"
  have cexp: "c = f1 @ CHR '' '' # f2 @ CHR '' '' # f3 @ CHR '' '' # f4 @ CHR '' '' # f5 @ []"
    by (simp add: c_def cron5_def)
  have end5: "K (Some (last f5), [], []) = Some [(1, c)]"
    by (simp add: K_def)
  have m: "rx_m False (Plus CRON_FIELD)
             (rx_cat (map (rx_m False) [Plus Space, Plus CRON_FIELD, Plus Space, Plus CRON_FIELD,
                      Plus Space, Plus CRON_FIELD, Plus Space, Plus CRON_FIELD]) K)
             (None, t, [])
           = Some [(1, c)]"
    if "t = f1 @ CHR '' '' # f2 @ CHR '' '' # f3 @ CHR '' '' # f4 @ CHR '' '' # f5 @ []" for t
    unfolding that
    using assms(1)
    apply (rule field_step)
     apply (simp add: py_isspace_def)
    apply (simp only: list.map rx_cat.simps)
    using assms(2)
    apply (rule space_step)
    apply (simp only: list.map rx_cat.simps)
    using assms(2)
    apply (rule field_step)
     apply (simp add: py_isspace_def)
    apply (simp only: list.map rx_cat.simps)
    using assms(3)
    apply (rule space_step)
    apply (simp only: list.map rx_cat.simps)
    using assms(3)
    apply (rule field_step)
     apply (simp add: py_isspace_def)
    apply (simp only: list.map rx_cat.simps)
    using assms(4)
    apply (rule space_step)
    apply (simp only: list.map rx_cat.simps)
    using assms(4)
    apply (rule field_step)
     apply (simp add: py_isspace_def)
    apply (simp only: list.map rx_cat.simps)
    using assms(5)
    apply (rule space_step)
    apply (simp only: list.map rx_cat.simps)
    using assms(5)
    apply (rule field_step)
     apply simp
    apply (simp only: list.map rx_cat.simps)
    apply (rule end5)
    done
  have u: "re_match False CRON_RX c =
        rx_m False (Plus CRON_FIELD)
             (rx_cat (map (rx_m False) [Plus Space, Plus CRON_FIELD, Plus Space, Plus CRON_FIELD,
                      Plus Space, Plus CRON_FIELD, Plus Space, Plus CRON_FIELD]) K)
             (None, c, [])"
    unfolding re_match_def CRON_RX_def K_def by (simp del: rx_m.simps(6))
  from u m [OF cexp] have "re_match False CRON_RX c = Some [(1, c)]" by (rule trans)
  then show ?thesis unfolding c_def .
qed

subsection \<open>A cron expression is parsed to itself\<close>

lemma field_ok_ends: "field_ok f \<Longrightarrow> \<not> py_isspace (hd f) \<and> \<not> py_isspace (last f)"
proof -
  assume f: "field_ok f"
  then have "hd f \<in> set f" "last f \<in> set f" by (simp_all add: field_ok_def)
  with f show ?thesis unfolding field_ok_def list_all_iff using cron_field_not_space by blast
qed

lemma field_ok_not_e: "field_ok f \<Longrightarrow> \<forall>c \<in> set f. \<not> cls_match True (Lit CHR ''e'') c"
  unfolding field_ok_def list_all_iff using cron_field_not_e by blast

lemma cron5_passthrough:
  assumes "field_ok f1" "field_ok f2" "field_ok f3" "field_ok f4" "field_ok f5"
  shows "parse_natural_language (cron5 f1 f2 f3 f4 f5) = Some (cron5 f1 f2 f3 f4 f5)"
proof -
  let ?c = "cron5 f1 f2 f3 f4 f5"
  have ne: "f1 \<noteq> []" "f5 \<noteq> []" using assms by (simp_all add: field_ok_def)
  have "hd ?c = hd f1" "last ?c = last f5" "?c \<noteq> []" using ne by (simp_all add: cron5_def)
  with field_ok_ends [OF assms(1)] field_ok_ends [OF assms(5)]
  have s: "strip ?c = ?c" by (intro strip_unchanged) simp_all
  have "\<not> cls_match True (Lit CHR ''e'') CHR '' ''" by (simp add: ascii_lower_def)
  with assms have e: "\<forall>c \<in> set ?c. \<not> cls_match True (Lit CHR ''e'') c"
    using field_ok_not_e by (auto simp: cron5_def)
  note n = nl_patterns_none [OF e]
  show ?thesis
    unfolding parse_natural_language_def Let_def s
    by (simp add: n cron_match [OF assms] group_str_def group_def)
qed

subsection \<open>Numbers are written with digits\<close>

lemma digit_nth: "n < 10 \<Longrightarrow> is_digit (''0123456789'' ! n)"
proof -
  assume "n < 10"
  then have "n \<in> {0, 1, 2, 3, 4, 5, 6, 7, 8, 9}" by auto
  then show ?thesis by (auto simp: is_digit_def)
qed

lemma str_nat_digits: "str_nat n \<noteq> [] \<and> list_all is_digit (str_nat n)"
proof (induction n rule: str_nat.induct)
  case (1 n)
  show ?case
  proof (cases "n < 10")
    case True
    then show ?thesis by (subst (1 2) str_nat.simps) (simp add: digit_nth)
  next
    case False
    with 1 have "str_nat (n div 10) \<noteq> [] \<and> list_all is_digit (str_nat (n div 10))" by simp
    moreover have "is_digit (''0123456789'' ! (n mod 10))" by (rule digit_nth) simp
    ultimately show ?thesis using False by (subst (1 2) str_nat.simps) simp
  qed
qed

lemma digits_field_ok: "ds \<noteq> [] \<Longrightarrow> list_all is_digit ds \<Longrightarrow> field_ok ds"
  by (auto simp: field_ok_def list_all_iff cron_field_char)

lemma parse_hour_nonneg: "0 \<le> parse_hour h a"
  by (simp add: parse_hour_def Let_def int_of_digits_def)

lemma hour_field_ok: "field_ok (str_int (parse_hour h a))"
  using parse_hour_nonneg [of h a] str_nat_digits by (simp add: str_int_def digits_field_ok)

lemma day_field_ok: "field_ok (case map_of DAY_MAP d of Some x \<Rightarrow> x | None \<Rightarrow> ''0'')"
  by (simp add: DAY_MAP_def field_ok_def cron_field_char is_digit_def)

lemma star_field_ok: "field_ok ''*''" "field_ok ''0''" "field_ok ''1-5''"
  by (simp_all add: field_ok_def cron_field_char is_digit_def)

lemma every_field_ok: "ds \<noteq> [] \<Longrightarrow> list_all is_digit ds \<Longrightarrow> field_ok (''*/'' @ ds)"
  by (auto simp: field_ok_def list_all_iff cron_field_char)

subsection \<open>The results of the phrase rules\<close>

lemma nl_loop_Some:
  assumes "nl_loop NL_PATTERNS text = Some c"
  shows "(\<exists>m. re_search True MINUTES_RX text = Some m \<and> c = ''*/'' @ group_str m 1 @ '' * * * *'') \<or>
         (\<exists>m. re_search True HOURS_RX text = Some m \<and> c = ''0 */'' @ group_str m 1 @ '' * * *'') \<or>
         c = ''* * * * *'' \<or> c = ''0 * * * *'' \<or>
         (\<exists>m. re_search True MONTH_RX text = Some m \<and> c = ''0 0 '' @ group_str m 1 @ '' * *'')"
  using assms unfolding NL_PATTERNS_def by (auto split: option.splits)

section \<open>Parsing a parsed cron expression\<close>

lemma parse_Some_cases:
  assumes "parse_natural_language p = Some c"
  shows "nl_loop NL_PATTERNS (strip p) = Some c \<or>
         (\<exists>m. re_search True EVERY_DAY_RX (strip p) = Some m \<and>
              c = ''0 '' @ str_int (parse_hour (group_str m 1) (group m 2)) @ '' * * *'') \<or>
         (\<exists>m. re_search True DAY_RX (strip p) = Some m \<and>
              c = ''0 '' @ str_int (parse_hour (group_str m 2) (group m 3)) @ '' * * '' @
                  (case map_of DAY_MAP (py_lower (group_str m 1)) of Some d \<Rightarrow> d | None \<Rightarrow> ''0'')) \<or>
         (\<exists>m. re_search True WEEKDAY_RX (strip p) = Some m \<and>
              c = ''0 '' @ str_int (parse_hour (group_str m 1) (group m 2)) @ '' * * 1-5'') \<or>
         (\<exists>m. re_match False CRON_RX (strip p) = Some m \<and> c = group_str m 1)"
  using assms unfolding parse_natural_language_def Let_def by (auto split: option.splits)

lemma parse_strip: "parse_natural_language (strip p) = parse_natural_language p"
  by (simp add: parse_natural_language_def strip_strip)

lemma results_cron5:
  "''*/'' @ ds @ '' * * * *'' = cron5 (''*/'' @ ds) ''*'' ''*'' ''*'' ''*''"
  "''0 */'' @ ds @ '' * * *'' = cron5 ''0'' (''*/'' @ ds) ''*'' ''*'' ''*''"
  "''* * * * *'' = cron5 ''*'' ''*'' ''*'' ''*'' ''*''"
  "''0 * * * *'' = cron5 ''0'' ''*'' ''*'' ''*'' ''*''"
  "''0 0 '' @ ds @ '' * *'' = cron5 ''0'' ''0'' ds ''*'' ''*''"
  "''0 '' @ h @ '' * * *'' = cron5 ''0'' h ''*'' ''*'' ''*''"
  "''0 '' @ h @ '' * * '' @ d = cron5 ''0'' h ''*'' ''*'' d"
  "''0 '' @ h @ '' * * 1-5'' = cron5 ''0'' h ''*'' ''*'' ''1-5''"
  by (simp_all add: cron5_def)

text \<open>
  C7. Whenever the parser returns a cron expression for a phrase, it returns that same
  expression when given the expression.
\<close>

theorem parse_idempotent:
  assumes "parse_natural_language p = Some c"
  shows "parse_natural_language c = Some c"
proof -
  note ok = star_field_ok hour_field_ok day_field_ok
  from parse_Some_cases [OF assms]
  consider (loop) "nl_loop NL_PATTERNS (strip p) = Some c"
    | (every_day) m where "c = ''0 '' @ str_int (parse_hour (group_str m 1) (group m 2)) @ '' * * *''"
    | (day) m where
        "c = ''0 '' @ str_int (parse_hour (group_str m 2) (group m 3)) @ '' * * '' @
             (case map_of DAY_MAP (py_lower (group_str m 1)) of Some d \<Rightarrow> d | None \<Rightarrow> ''0'')"
    | (weekday) m where "c = ''0 '' @ str_int (parse_hour (group_str m 1) (group m 2)) @ '' * * 1-5''"
    | (raw) m where "re_match False CRON_RX (strip p) = Some m" "c = group_str m 1"
    by blast
  then show ?thesis
  proof cases
    case loop
    from nl_loop_Some [OF loop]
    consider (minutes) m where "re_search True MINUTES_RX (strip p) = Some m"
          "c = ''*/'' @ group_str m 1 @ '' * * * *''"
      | (hours) m where "re_search True HOURS_RX (strip p) = Some m"
          "c = ''0 */'' @ group_str m 1 @ '' * * *''"
      | (minute) "c = ''* * * * *''"
      | (hour) "c = ''0 * * * *''"
      | (month) m where "re_search True MONTH_RX (strip p) = Some m"
          "c = ''0 0 '' @ group_str m 1 @ '' * *''"
      by blast
    then show ?thesis
    proof cases
      case minutes
      from minutes_group [OF minutes(1)] obtain ds where
        ds: "group m 1 = Some ds" "ds \<noteq> []" "list_all is_digit ds"
        by blast
      from ds(1) have "group_str m 1 = ds" by (simp add: group_str_def)
      with every_field_ok [OF ds(2,3)] have "field_ok (''*/'' @ group_str m 1)"
        by (simp only:)
      then show ?thesis unfolding minutes(2) results_cron5
        by (intro cron5_passthrough ok)
    next
      case hours
      from hours_group [OF hours(1)] obtain ds where
        ds: "group m 1 = Some ds" "ds \<noteq> []" "list_all is_digit ds"
        by blast
      from ds(1) have "group_str m 1 = ds" by (simp add: group_str_def)
      with every_field_ok [OF ds(2,3)] have "field_ok (''*/'' @ group_str m 1)"
        by (simp only:)
      then show ?thesis unfolding hours(2) results_cron5
        by (intro cron5_passthrough ok)
    next
      case minute
      show ?thesis unfolding minute results_cron5 by (intro cron5_passthrough ok)
    next
      case hour
      show ?thesis unfolding hour results_cron5 by (intro cron5_passthrough ok)
    next
      case month
      from month_group [OF month(1)] have "field_ok (group_str m 1)"
        by (auto simp: group_str_def digits_field_ok)
      then show ?thesis unfolding month(2) results_cron5
        by (intro cron5_passthrough ok)
    qed
  next
    case every_day
    show ?thesis unfolding every_day results_cron5 by (intro cron5_passthrough ok)
  next
    case day
    show ?thesis unfolding day results_cron5 by (intro cron5_passthrough ok)
  next
    case weekday
    show ?thesis unfolding weekday results_cron5 by (intro cron5_passthrough ok)
  next
    case raw
    from cron_match_group [OF raw(1)] obtain g1 rest where
      g: "group m 1 = Some g1" "strip p = g1 @ rest" "rest = [] \<or> rest = [CHR 0x0A]"
      by blast
    have "rest = []"
    proof (rule ccontr)
      assume "rest \<noteq> []"
      with g(3) have r: "rest = [CHR 0x0A]" by simp
      with g(2) have "strip p \<noteq> []" "last (strip p) = CHR 0x0A" by simp_all
      with strip_ends [of p] show False by (simp add: py_isspace_def)
    qed
    with g raw(2) have "c = strip p" by (simp add: group_str_def)
    with assms show ?thesis by (simp add: parse_strip)
  qed
qed

lemma monday_3pm: "parse_natural_language ''every Monday at 3pm'' = Some ''0 15 * * 1''"
  by code_simp

theorem parse_idempotent_witness:
  "parse_natural_language ''every Monday at 3pm'' = Some ''0 15 * * 1'' \<and>
   parse_natural_language ''0 15 * * 1'' = Some ''0 15 * * 1''"
  using parse_idempotent [OF monday_3pm] monday_3pm by simp

subsection \<open>The phrases of the table\<close>



subsection \<open>Tests on lower-case letters and digits\<close>














subsection \<open>Searching a text in which only the start can match\<close>





subsection \<open>The hour at the end of a phrase\<close>




subsection \<open>The patterns on the phrases with an hour\<close>






subsection \<open>From the searches to the result of the parser\<close>







lemma hour_groups:
  "group_str ((if ap = [] then [] else [(Suc n, ap)]) @ (n, H) # g) n = H"
  "group ((if ap = [] then [] else [(Suc n, ap)]) @ (n, H) # g) (Suc n) =
     (if ap = [] then map_of g (Suc n) else Some ap)"
  by (simp_all add: group_str_def group_def)

subsection \<open>The phrases with an hour\<close>







subsection \<open>Every month on a day\<close>









subsection \<open>Every N minutes, every N hours\<close>















subsection \<open>The table of the specification\<close>











section \<open>One beat of the heartbeat\<close>

lemma publish_result_trace:
  "publish_result svc txt tr =
     (if reply_to_well_formed (reply_to svc) \<and> bus svc \<noteq> None
      then tr\<lparr>bus_calls := bus_calls tr @ [reply_message (reply_to svc) txt],
              propagated := (case escape_of (bus_outcome svc txt) of
                               Some exc \<Rightarrow> Some exc | None \<Rightarrow> propagated tr)\<rparr>
      else tr)"
  by (auto simp: publish_result_def reply_to_well_formed_def reply_message_def Let_def split_once_def
           bus_outcome_def escape_of_def
           split: option.splits outcome.splits)

lemma well_formed_nonempty: "reply_to_well_formed r \<Longrightarrow> r \<noteq> []"
  by (auto simp: reply_to_well_formed_def split_once_def)

text \<open>
  Claim C8, amended. If HEARTBEAT.md is missing, or the text \<open>read_text\<close> returns for it
  (its characters with \<open>\r\n\<close> and \<open>\r\<close> read as \<open>\n\<close>) strips to the empty string, the engine
  is not called, nothing is published and no exception leaves the beat. If the file cannot
  be read, the exception of \<open>read_text\<close> leaves the beat. Otherwise the engine is called
  once, with that stripped text and the session key \<open>heartbeat:periodic\<close>. When it returns,
  its response is published if and only if \<open>reply_to\<close> is well-formed, a bus is configured
  and the response is not empty. When it raises an exception of class \<open>Exception\<close>, the
  diagnostic is published if and only if \<open>reply_to\<close> is well-formed and a bus is configured,
  and the exception of the engine does not leave the beat. In both cases the only
  exception that can leave the beat is one of the bus outside class \<open>Exception\<close>. When the
  engine raises an exception outside class \<open>Exception\<close>, nothing is published and that
  exception leaves the beat. The published message has the channel before the first
  colon of \<open>reply_to\<close> and the id after it.
\<close>

theorem beat_behaviour:
  "((heartbeat_file svc = Missing \<or>
     (\<exists>raw. heartbeat_file svc = Stored raw \<and> strip (universal_newlines raw) = [])) \<longrightarrow>
      beat svc = \<lparr>engine_calls = [], bus_calls = [], propagated = None\<rparr>) \<and>
   (\<forall>exc. heartbeat_file svc = Unreadable exc \<longrightarrow>
      beat svc = \<lparr>engine_calls = [], bus_calls = [], propagated = Some exc\<rparr>) \<and>
   (\<forall>raw. heartbeat_file svc = Stored raw \<and> strip (universal_newlines raw) \<noteq> [] \<longrightarrow>
      engine_calls (beat svc) = [(strip (universal_newlines raw), ''heartbeat:periodic'')] \<and>
      (\<forall>result. engine_run svc (strip (universal_newlines raw)) ''heartbeat:periodic'' = Returned result \<longrightarrow>
         (if reply_to_well_formed (reply_to svc) \<and> bus svc \<noteq> None \<and> response result \<noteq> []
          then bus_calls (beat svc) = [reply_message (reply_to svc) (response result)] \<and>
               propagated (beat svc) = escape_of (bus_outcome svc (response result))
          else bus_calls (beat svc) = [] \<and> propagated (beat svc) = None)) \<and>
      (\<forall>exc. engine_run svc (strip (universal_newlines raw)) ''heartbeat:periodic'' = Raised exc \<longrightarrow>
         (if reply_to_well_formed (reply_to svc) \<and> bus svc \<noteq> None
          then bus_calls (beat svc) = [reply_message (reply_to svc) (''Heartbeat run failed: '' @ exc)] \<and>
               propagated (beat svc) = escape_of (bus_outcome svc (''Heartbeat run failed: '' @ exc))
          else bus_calls (beat svc) = [] \<and> propagated (beat svc) = None)) \<and>
      (\<forall>exc. engine_run svc (strip (universal_newlines raw)) ''heartbeat:periodic'' = Escaped exc \<longrightarrow>
         bus_calls (beat svc) = [] \<and> propagated (beat svc) = Some exc))"
proof -
  have skip: "beat svc = \<lparr>engine_calls = [], bus_calls = [], propagated = None\<rparr>"
    if "heartbeat_file svc = Missing \<or>
        (\<exists>raw. heartbeat_file svc = Stored raw \<and> strip (universal_newlines raw) = [])"
    using that by (auto simp: beat_def Let_def)
  have unreadable: "beat svc = \<lparr>engine_calls = [], bus_calls = [], propagated = Some exc\<rparr>"
    if "heartbeat_file svc = Unreadable exc" for exc
    using that by (simp add: beat_def Let_def)
  have run: "engine_calls (beat svc) = [(strip (universal_newlines raw), ''heartbeat:periodic'')]"
    if "heartbeat_file svc = Stored raw" "strip (universal_newlines raw) \<noteq> []" for raw
    using that
    by (auto simp: beat_def Let_def SESSION_KEY_def publish_result_trace split: outcome.splits)
  have ok: "if reply_to_well_formed (reply_to svc) \<and> bus svc \<noteq> None \<and> response result \<noteq> []
          then bus_calls (beat svc) = [reply_message (reply_to svc) (response result)] \<and>
               propagated (beat svc) = escape_of (bus_outcome svc (response result))
          else bus_calls (beat svc) = [] \<and> propagated (beat svc) = None"
    if "heartbeat_file svc = Stored raw" "strip (universal_newlines raw) \<noteq> []"
       "engine_run svc (strip (universal_newlines raw)) ''heartbeat:periodic'' = Returned result"
    for raw result
    using that well_formed_nonempty [of "reply_to svc"]
    by (auto simp: beat_def Let_def SESSION_KEY_def publish_result_trace split: option.splits)
  have fail: "if reply_to_well_formed (reply_to svc) \<and> bus svc \<noteq> None
          then bus_calls (beat svc) = [reply_message (reply_to svc) (''Heartbeat run failed: '' @ exc)] \<and>
               propagated (beat svc) = escape_of (bus_outcome svc (''Heartbeat run failed: '' @ exc))
          else bus_calls (beat svc) = [] \<and> propagated (beat svc) = None"
    if "heartbeat_file svc = Stored raw" "strip (universal_newlines raw) \<noteq> []"
       "engine_run svc (strip (universal_newlines raw)) ''heartbeat:periodic'' = Raised exc"
    for raw exc
    using that well_formed_nonempty [of "reply_to svc"]
    by (auto simp: beat_def Let_def SESSION_KEY_def publish_result_trace split: option.splits)
  have esc: "bus_calls (beat svc) = [] \<and> propagated (beat svc) = Some exc"
    if "heartbeat_file svc = Stored raw" "strip (universal_newlines raw) \<noteq> []"
       "engine_run svc (strip (universal_newlines raw)) ''heartbeat:periodic'' = Escaped exc"
    for raw exc
    using that by (simp add: beat_def Let_def SESSION_KEY_def)
  show ?thesis
    apply (intro conjI allI impI)
    subgoal by (rule skip)
    subgoal by (rule unreadable)
    subgoal by (rule run) simp_all
    subgoal by (rule ok) simp_all
    subgoal by (rule fail) simp_all
    subgoal using esc by blast
    subgoal using esc by blast
    done
qed

lemma silent_beat:
  "beat silent_example = \<lparr>engine_calls = [(''Check health'', ''heartbeat:periodic'')], bus_calls = [], propagated = None\<rparr>"
  by code_simp

text \<open>
  Claim C8 as stated fails: with a well-formed \<open>reply_to\<close> and a bus, an engine that
  returns the empty response is called, and nothing is published, because \<open>_beat\<close>
  publishes under \<open>if self._reply_to and self._bus and result.response\<close>.
\<close>

theorem beat_publish_counterexample:
  "heartbeat_file silent_example = Stored ''Check health'' \<and>
   reply_to silent_example = ''telegram:99999'' \<and>
   reply_to_well_formed (reply_to silent_example) \<and>
   engine_run silent_example ''Check health'' ''heartbeat:periodic'' =
     Returned \<lparr>response = '''', iterations = 1, total_tokens = 10\<rparr> \<and>
   engine_calls (beat silent_example) = [(''Check health'', ''heartbeat:periodic'')] \<and>
   bus_calls (beat silent_example) = []"
  by (simp add: silent_beat) (simp add: silent_example_def reply_to_well_formed_def split_once_def)

text \<open>
  The other amendments are forced by these beats: an \<open>asyncio.CancelledError\<close> of the
  engine is not an \<open>Exception\<close> and leaves the beat; the engine gets the text with its line
  ends translated; a file that cannot be read raises before the \<open>try\<close>.
\<close>

lemma cancelled_beat:
  "beat cancelled_example =
     \<lparr>engine_calls = [(''Check health'', ''heartbeat:periodic'')], bus_calls = [],
      propagated = Some ''CancelledError''\<rparr>"
  by code_simp

lemma delivery_beat:
  "beat delivery_example =
     \<lparr>engine_calls = [(''Check health'', ''heartbeat:periodic'')],
      bus_calls = [\<lparr>channel = ''telegram'', chat_id = ''99999'', msg_text = ''Heartbeat result''\<rparr>],
      propagated = None\<rparr>"
  by code_simp

lemma failing_beat:
  "beat failing_example =
     \<lparr>engine_calls = [(''Check health'' @ [CHR 0x0A] @ ''Check disk'', ''heartbeat:periodic'')],
      bus_calls = [\<lparr>channel = ''discord'', chat_id = ''chan1'', msg_text = ''Heartbeat run failed: boom''\<rparr>],
      propagated = None\<rparr>"
  by code_simp

lemma unreadable_beat:
  "beat unreadable_example =
     \<lparr>engine_calls = [], bus_calls = [], propagated = Some ''UnicodeDecodeError''\<rparr>"
  by code_simp

theorem beat_behaviour_witness:
  "beat blank_example = \<lparr>engine_calls = [], bus_calls = [], propagated = None\<rparr> \<and>
   beat unreadable_example = \<lparr>engine_calls = [], bus_calls = [], propagated = Some ''UnicodeDecodeError''\<rparr> \<and>
   engine_calls (beat delivery_example) = [(''Check health'', ''heartbeat:periodic'')] \<and>
   bus_calls (beat delivery_example) = [reply_message ''telegram:99999'' ''Heartbeat result''] \<and>
   propagated (beat delivery_example) = None \<and>
   engine_calls (beat failing_example) =
     [(''Check health'' @ [CHR 0x0A] @ ''Check disk'', ''heartbeat:periodic'')] \<and>
   bus_calls (beat failing_example) = [reply_message ''discord:chan1'' ''Heartbeat run failed: boom''] \<and>
   propagated (beat failing_example) = None \<and>
   bus_calls (beat cancelled_example) = [] \<and>
   propagated (beat cancelled_example) = Some ''CancelledError''"
proof -
  have wf: "reply_to_well_formed ''telegram:99999''" "reply_to_well_formed ''discord:chan1''"
    by (simp_all add: reply_to_well_formed_def split_once_def)
  have b: "\<exists>raw. heartbeat_file blank_example = Stored raw \<and> strip (universal_newlines raw) = []"
    unfolding blank_example_def by (simp add: strip_def lstrip_def rstrip_def py_isspace_def)
  have d: "heartbeat_file delivery_example = Stored ''Check health''"
    "strip (universal_newlines ''Check health'') = ''Check health''"
    "engine_run delivery_example ''Check health'' ''heartbeat:periodic'' =
       Returned \<lparr>response = ''Heartbeat result'', iterations = 1, total_tokens = 10\<rparr>"
    "reply_to delivery_example = ''telegram:99999''" "bus delivery_example = Some fake_bus"
    by (simp_all add: delivery_example_def strip_def lstrip_def rstrip_def py_isspace_def)
  have f: "heartbeat_file failing_example =
             Stored (''Check health'' @ [CHR 0x0D, CHR 0x0A] @ ''Check disk'' @ [CHR 0x0D, CHR 0x0A])"
    "strip (universal_newlines (''Check health'' @ [CHR 0x0D, CHR 0x0A] @ ''Check disk'' @ [CHR 0x0D, CHR 0x0A])) =
       ''Check health'' @ [CHR 0x0A] @ ''Check disk''"
    "engine_run failing_example (''Check health'' @ [CHR 0x0A] @ ''Check disk'') ''heartbeat:periodic'' =
       Raised ''boom''"
    "reply_to failing_example = ''discord:chan1''" "bus failing_example = Some fake_bus"
    by (simp_all add: failing_example_def strip_def lstrip_def rstrip_def py_isspace_def)
  have c: "heartbeat_file cancelled_example = Stored ''Check health''"
    "engine_run cancelled_example ''Check health'' ''heartbeat:periodic'' = Escaped ''CancelledError''"
    by (simp_all add: cancelled_example_def)
  have u: "heartbeat_file unreadable_example = Unreadable ''UnicodeDecodeError''"
    by (simp add: unreadable_example_def)
  have e: "escape_of (bus_outcome delivery_example msg) = None"
    "escape_of (bus_outcome failing_example msg) = None" for msg
    by (simp_all add: escape_of_def bus_outcome_def delivery_example_def failing_example_def fake_bus_def)
  from beat_behaviour [of blank_example] b
  have 1: "beat blank_example = \<lparr>engine_calls = [], bus_calls = [], propagated = None\<rparr>"
    by blast
  from beat_behaviour [of unreadable_example] u
  have 2: "beat unreadable_example =
             \<lparr>engine_calls = [], bus_calls = [], propagated = Some ''UnicodeDecodeError''\<rparr>"
    by blast
  from beat_behaviour [of delivery_example] d wf e
  have 3: "engine_calls (beat delivery_example) = [(''Check health'', ''heartbeat:periodic'')]"
    "bus_calls (beat delivery_example) = [reply_message ''telegram:99999'' ''Heartbeat result'']"
    "propagated (beat delivery_example) = None"
    by simp_all
  from beat_behaviour [of failing_example] f wf e
  have 4: "engine_calls (beat failing_example) =
             [(''Check health'' @ [CHR 0x0A] @ ''Check disk'', ''heartbeat:periodic'')]"
    "bus_calls (beat failing_example) = [reply_message ''discord:chan1'' ''Heartbeat run failed: boom'']"
    "propagated (beat failing_example) = None"
    by simp_all
  from beat_behaviour [of cancelled_example] c d(2)
  have 5: "bus_calls (beat cancelled_example) = []"
    "propagated (beat cancelled_example) = Some ''CancelledError''"
    by simp_all
  from 1 2 3 4 5 show ?thesis by blast
qed

section \<open>The migration keeps the jobs of \<open>jobs.json\<close>\<close>

lemma load_after_delete:
  "f \<noteq> ''jobs.json'' \<Longrightarrow> load_jobs_file (AList.delete f dir) = load_jobs_file dir"
  by (simp add: load_jobs_file_def delete_conv')

lemma load_after_save: "load_jobs_file (save_jobs_file dir jobs) = jobs"
  by (simp add: load_jobs_file_def save_jobs_file_def update_conv')

lemma migrated_entry_is_migrated: "is_migrated (migrated_entry s d t)"
  by (simp add: is_migrated_def migrated_entry_def startswith_def)

lemma migrate_loop_unparsable:
  "migrate_loop now ids ((f, Unparsable) # fs) (dir, jobs) = migrate_loop now ids fs (dir, jobs)"
  by simp

lemma migrate_loop_not_dict:
  "\<forall>d. entry \<noteq> JObj d \<Longrightarrow>
   migrate_loop now ids ((f, Json entry) # fs) (dir, jobs) = ((dir, jobs), Some AttributeError)"
  by (cases entry) simp_all

lemma migrate_loop_unhashable:
  "\<not> hashable (obj_get d ''id'' (JStr '''')) \<Longrightarrow>
   migrate_loop now ids ((f, Json (JObj d)) # fs) (dir, jobs) = ((dir, jobs), Some TypeError)"
  by (simp add: Let_def)

lemma migrate_loop_known:
  "hashable (obj_get d ''id'' (JStr '''')) \<Longrightarrow> list_ex (py_eq (obj_get d ''id'' (JStr ''''))) ids \<Longrightarrow>
   migrate_loop now ids ((f, Json (JObj d)) # fs) (dir, jobs) =
   migrate_loop now ids fs (AList.delete f dir, jobs)"
  by (simp add: Let_def)

lemma migrate_loop_new:
  "hashable (obj_get d ''id'' (JStr '''')) \<Longrightarrow> \<not> list_ex (py_eq (obj_get d ''id'' (JStr ''''))) ids \<Longrightarrow>
   obj_get d ''id'' (JStr '''') = JStr s \<Longrightarrow>
   migrate_loop now ids ((f, Json (JObj d)) # fs) (dir, jobs) =
   migrate_loop now ids fs (AList.delete f dir, jobs @ [migrated_entry s d (now f)])"
  by (simp add: Let_def)

lemma migrate_loop_not_str:
  "hashable (obj_get d ''id'' (JStr '''')) \<Longrightarrow> \<not> list_ex (py_eq (obj_get d ''id'' (JStr ''''))) ids \<Longrightarrow>
   \<forall>s. obj_get d ''id'' (JStr '''') \<noteq> JStr s \<Longrightarrow>
   migrate_loop now ids ((f, Json (JObj d)) # fs) (dir, jobs) = ((dir, jobs), Some AttributeError)"
  by (cases "obj_get d ''id'' (JStr '''')") (simp_all add: Let_def)

text \<open>
  The loop never touches \<open>jobs.json\<close> and only appends entries of the new schema to the
  job list; when it ends with an exception the list is never written.
\<close>

lemma migrate_loop_appends:
  assumes "migrate_loop now ids fs (dir, jobs) = ((dir', jobs'), exc)"
    and "\<forall>x \<in> set fs. fst x \<noteq> ''jobs.json''"
  shows "load_jobs_file dir' = load_jobs_file dir \<and>
         (\<exists>added. jobs' = jobs @ added \<and> (\<forall>m \<in> set added. is_migrated m))"
  using assms
proof (induction fs arbitrary: dir jobs)
  case Nil
  then show ?case by simp
next
  case (Cons x fs)
  obtain f content where x: "x = (f, content)" by (cases x)
  from Cons.prems(2) x have f: "f \<noteq> ''jobs.json''" and rest: "\<forall>x \<in> set fs. fst x \<noteq> ''jobs.json''"
    by simp_all
  note IH = Cons.IH [OF _ rest]
  note step = Cons.prems(1) [unfolded x]
  show ?case
  proof (cases content)
    case Unparsable
    from step have "migrate_loop now ids fs (dir, jobs) = ((dir', jobs'), exc)"
      unfolding Unparsable migrate_loop_unparsable .
    from IH [OF this] show ?thesis .
  next
    case (Json entry)
    show ?thesis
    proof (cases "\<exists>d. entry = JObj d")
      case False
      then have "\<forall>d. entry \<noteq> JObj d" by blast
      from step [unfolded Json migrate_loop_not_dict [OF this]]
      show ?thesis by simp
    next
      case True
      then obtain d where d: "entry = JObj d" by blast
      let ?id = "obj_get d ''id'' (JStr '''')"
      consider (unhashable) "\<not> hashable ?id"
        | (known) "hashable ?id" "list_ex (py_eq ?id) ids"
        | (new) s where "hashable ?id" "\<not> list_ex (py_eq ?id) ids" "?id = JStr s"
        | (bad) "hashable ?id" "\<not> list_ex (py_eq ?id) ids" "\<forall>s. ?id \<noteq> JStr s"
        by blast
      then show ?thesis
      proof cases
        case unhashable
        from step [unfolded Json d migrate_loop_unhashable [OF unhashable]]
        show ?thesis by simp
      next
        case known
        from step [unfolded Json d migrate_loop_known [OF known]]
        have "migrate_loop now ids fs (AList.delete f dir, jobs) = ((dir', jobs'), exc)" .
        from IH [OF this] load_after_delete [OF f, of dir] show ?thesis by simp
      next
        case new
        from step [unfolded Json d migrate_loop_new [OF new]]
        have "migrate_loop now ids fs (AList.delete f dir, jobs @ [migrated_entry s d (now f)]) = ((dir', jobs'), exc)" .
        from IH [OF this] obtain added where
          a: "load_jobs_file dir' = load_jobs_file (AList.delete f dir)"
             "jobs' = (jobs @ [migrated_entry s d (now f)]) @ added" "\<forall>m \<in> set added. is_migrated m"
          by blast
        have 1: "jobs' = jobs @ (migrated_entry s d (now f) # added)" using a(2) by simp
        have 2: "\<forall>m \<in> set (migrated_entry s d (now f) # added). is_migrated m"
          using a(3) migrated_entry_is_migrated by simp
        have 3: "load_jobs_file dir' = load_jobs_file dir"
          using a(1) load_after_delete [OF f, of dir] by simp
        from 1 2 3 show ?thesis by blast
      next
        case bad
        from step [unfolded Json d migrate_loop_not_str [OF bad]]
        show ?thesis by simp
      qed
    qed
  qed
qed

lemma migrate_individual_files_cases:
  assumes "migrate_individual_files now dir = (dir', exc)"
  obtains (nothing) "dir' = dir" "exc = None"
    | (bad_jobs) e where "dir' = dir" "exc = Some e"
    | (saved) ids fs jobs' dir1 where
        "\<forall>x \<in> set fs. fst x \<noteq> ''jobs.json''"
        "migrate_loop now ids fs (dir, load_jobs_file dir) = ((dir1, jobs'), None)"
        "dir' = save_jobs_file dir1 jobs'" "exc = None"
    | (aborted) ids fs jobs' e where
        "\<forall>x \<in> set fs. fst x \<noteq> ''jobs.json''"
        "migrate_loop now ids fs (dir, load_jobs_file dir) = ((dir', jobs'), Some e)"
        "exc = Some e"
proof -
  define fs where
    "fs = filter (\<lambda>(f, content). endswith f ''.json'' \<and> f \<noteq> ''jobs.json'' \<and> \<not> endswith f ''.tmp'') dir"
  have nj: "\<forall>x \<in> set fs. fst x \<noteq> ''jobs.json''"
    unfolding fs_def by auto
  note m = assms [unfolded migrate_individual_files_def Let_def, folded fs_def]
  show thesis
  proof (cases "fs = []")
    case True
    with m have "dir' = dir" "exc = None" by simp_all
    then show thesis by (rule nothing)
  next
    case False
    show thesis
    proof (cases "existing_ids_of (load_jobs_file dir)")
      case (Inl e)
      with False m have "dir' = dir" "exc = Some e" by simp_all
      then show thesis by (rule bad_jobs)
    next
      case (Inr ids)
      obtain dir1 jobs1 exc1 where
        l: "migrate_loop now ids fs (dir, load_jobs_file dir) = ((dir1, jobs1), exc1)"
        by (metis surj_pair)
      show thesis
      proof (cases exc1)
        case None
        with False Inr l m have "dir' = save_jobs_file dir1 jobs1" "exc = None" by simp_all
        with nj l None show thesis by (auto intro: saved)
      next
        case (Some e)
        with False Inr l m have "dir' = dir1" "exc = Some e" by simp_all
        with nj l Some show thesis by (auto intro: aborted)
      qed
    qed
  qed
qed

text \<open>
  C9. Every job of \<open>jobs.json\<close> before the migration is in \<open>jobs.json\<close> after it, unchanged
  and at the same position: the list read after the migration is the list read before it
  followed by the migrated entries, each of which has the keys of the new schema and an id
  starting with \<open>cron_\<close>. When the migration ends with an exception, nothing is added.
\<close>

theorem migration_keeps_existing_jobs:
  assumes "migrate_individual_files now dir = (dir', exc)"
  shows "\<exists>added. load_jobs_file dir' = load_jobs_file dir @ added \<and>
           (\<forall>m \<in> set added. is_migrated m) \<and> (exc \<noteq> None \<longrightarrow> added = [])"
  using assms
proof (cases rule: migrate_individual_files_cases)
  case nothing
  then show ?thesis by simp
next
  case (bad_jobs e)
  then show ?thesis by simp
next
  case (saved ids fs jobs' dir1)
  from migrate_loop_appends [OF saved(2) saved(1)] obtain added where
    "jobs' = load_jobs_file dir @ added" "\<forall>m \<in> set added. is_migrated m"
    by blast
  with saved(3,4) show ?thesis by (auto simp: load_after_save)
next
  case (aborted ids fs jobs' e)
  from migrate_loop_appends [OF aborted(2) aborted(1)]
  have "load_jobs_file dir' = load_jobs_file dir" by blast
  then show ?thesis by simp
qed

lemma legacy_migration:
  "migrate_individual_files legacy_now legacy_dir =
     ([(''jobs.json'',
         Json (JArr [JObj [(''id'', JStr ''cron_1a2b3c4d''), (''name'', JStr ''Old''),
                           (''schedule'', JStr ''0 9 * * *''), (''prompt'', JStr ''hello''),
                           (''enabled'', JBool True), (''last_run'', JNull),
                           (''created_at'', JStr ''2025-01-01T00:00:00+00:00''),
                           (''reply_to'', JStr '''')],
                     JObj [(''id'', JStr ''cron_abc''), (''name'', JStr ''Legacy''),
                           (''schedule'', JStr ''*/5 * * * *''), (''prompt'', JStr ''ping''),
                           (''enabled'', JBool True), (''last_run'', JNull),
                           (''created_at'', JStr ''2026-01-01T00:00:00+00:00''),
                           (''reply_to'', JStr '''')]]))], None)"
  unfolding legacy_dir_def legacy_now_def by code_simp

lemma legacy_jobs_before:
  "load_jobs_file legacy_dir =
     [JObj [(''id'', JStr ''cron_1a2b3c4d''), (''name'', JStr ''Old''),
            (''schedule'', JStr ''0 9 * * *''), (''prompt'', JStr ''hello''),
            (''enabled'', JBool True), (''last_run'', JNull),
            (''created_at'', JStr ''2025-01-01T00:00:00+00:00''),
            (''reply_to'', JStr '''')]]"
  unfolding legacy_dir_def by code_simp

lemma legacy_jobs_count:
  "length (load_jobs_file (fst (migrate_individual_files legacy_now legacy_dir))) = 2"
  unfolding legacy_migration by (simp add: load_jobs_file_def)

theorem migration_keeps_existing_jobs_witness:
  "\<exists>added. load_jobs_file (fst (migrate_individual_files legacy_now legacy_dir)) =
             load_jobs_file legacy_dir @ added \<and>
           (\<forall>m \<in> set added. is_migrated m) \<and> length added = 1"
proof -
  from migration_keeps_existing_jobs [OF legacy_migration] obtain added where
    a: "load_jobs_file (fst (migrate_individual_files legacy_now legacy_dir)) =
          load_jobs_file legacy_dir @ added"
       "\<forall>m \<in> set added. is_migrated m"
    unfolding legacy_migration fst_conv by blast
  from arg_cong [OF a(1), of length] have "length added = 1"
    unfolding legacy_jobs_count by (simp add: legacy_jobs_before)
  with a show ?thesis by blast
qed

end
